theory Spec2Isabelle
  imports Main "HOL-Library.Disjoint_Sets"
begin

section \<open>The disjoint-set structure of \<^verbatim>\<open>class DisjoinSet\<close>\<close>

text \<open>
  The class keeps three \<^verbatim>\<open>vector<int>\<close> members, \<^verbatim>\<open>rank\<close>, \<^verbatim>\<open>parent\<close> and
  \<^verbatim>\<open>size\<close>, and five member functions: the constructor, \<^verbatim>\<open>findUp\<close>,
  \<^verbatim>\<open>unionByRank\<close>, \<^verbatim>\<open>unionBySize\<close> and \<^verbatim>\<open>isComponent\<close>. The object is a record
  that every member function takes and gives back.

  What a call can do besides returning is made a value:
  \<^item> \<open>Returns x\<close>: the call returns \<open>x\<close>;
  \<^item> \<open>Throws e\<close>: a C++ exception leaves the call. The only one the class can
    meet is \<^verbatim>\<open>std::length_error\<close>, thrown by \<^verbatim>\<open>vector::resize\<close> when the requested
    size exceeds \<^verbatim>\<open>max_size()\<close>;
  \<^item> \<open>Undefined\<close>: the call indexes a vector out of bounds with \<^verbatim>\<open>operator[]\<close>,
    which checks nothing: the behaviour of the program is undefined from there,
    and no exception is thrown;
  \<^item> \<open>None\<close> (of the enclosing \<open>option\<close>): the recursion of \<^verbatim>\<open>findUp\<close> never ends.

  The elements of the vectors and the arguments are C++ \<^verbatim>\<open>int\<close>s, modelled as
  \<open>int\<close>. Element identifiers are only copied, compared and used as indices.
  The three places that do arithmetic (\<^verbatim>\<open>n+1\<close>, \<^verbatim>\<open>rank[v_up]++\<close> and
  \<^verbatim>\<open>size[..] += size[..]\<close>) take the 32-bit two's complement result \<open>int32\<close>:
  C++ leaves signed overflow undefined, and this is what the usual targets
  compute. The two increments reach the rank and size vectors only; the size
  \<open>INT_MAX\<close>, whose \<^verbatim>\<open>n+1\<close> overflows, is outside every theorem below
  (\<open>valid_size\<close>). The loop counter of the constructor stays below \<open>n + 1\<close> and cannot wrap.
  Memory is taken to be sufficient: \<^verbatim>\<open>std::bad_alloc\<close> is not modelled.
\<close>

datatype exception = LengthError

datatype 'a result = Returns 'a | Throws exception | Undefined

definition INT_MAX :: int where
  "INT_MAX = 2147483647"

definition int32 :: "int \<Rightarrow> int" where
  "int32 x = (x + 2147483648) mod 4294967296 - 2147483648"

record ds =
  rank :: "int list"
  parent :: "int list"
  size_vec :: "int list"

text \<open>\<open>in_bounds xs i\<close>: the index \<open>i\<close> is one \<^verbatim>\<open>xs[i]\<close> may use.\<close>

definition in_bounds :: "int list \<Rightarrow> int \<Rightarrow> bool" where
  "in_bounds xs i \<longleftrightarrow> 0 \<le> i \<and> i < int (length xs)"

subsection \<open>The constructor\<close>

text \<open>
  \<^verbatim>\<open>for(int i = 0;i <= n;i ++){ parent[i] = i; }\<close>
\<close>

function init_parent :: "int list \<Rightarrow> int \<Rightarrow> int \<Rightarrow> int list" where
  "init_parent p i n = (if i \<le> n then init_parent (p[nat i := i]) (i + 1) n else p)"
  by pat_completeness auto
termination
  by (relation "measure (\<lambda>(p, i, n). nat (n + 1 - i))") auto

declare init_parent.simps [simp del]

text \<open>
  \<^verbatim>\<open>rank.resize(n+1,0); parent.resize(n+1); size.resize(n+1,1);\<close> and the loop.
  \<^verbatim>\<open>resize\<close> takes a \<^verbatim>\<open>size_t\<close>: a negative \<^verbatim>\<open>n+1\<close> converts to a value above
  \<^verbatim>\<open>max_size()\<close>, and the first \<^verbatim>\<open>resize\<close> throws \<^verbatim>\<open>std::length_error\<close>.
  There is no other check on \<open>n\<close>.
\<close>

definition DisjoinSet :: "int \<Rightarrow> ds result" where
  "DisjoinSet n =
     (let m = int32 (n + 1) in
      if m < 0 then Throws LengthError
      else Returns \<lparr>rank = replicate (nat m) 0,
                    parent = init_parent (replicate (nat m) 0) 0 n,
                    size_vec = replicate (nat m) 1\<rparr>)"

subsection \<open>\<^verbatim>\<open>findUp\<close>\<close>

text \<open>
  \<^verbatim>\<open>if(node == parent[node]) return node;
  return parent[node] = findUp(parent[node]);\<close>

  The read \<^verbatim>\<open>parent[node]\<close> is unchecked. The vectors are never resized after
  construction, so the write after the recursive call hits the same, valid, slot.
\<close>

partial_function (option) findUp :: "ds \<Rightarrow> int \<Rightarrow> (ds \<times> int) result option" where
  "findUp s node =
     (if \<not> in_bounds (parent s) node then Some Undefined
      else if node = parent s ! nat node then Some (Returns (s, node))
      else Option.bind (findUp s (parent s ! nat node))
             (\<lambda>res. Some (case res of
                 Returns (s', r) \<Rightarrow> Returns (s'\<lparr>parent := (parent s')[nat node := r]\<rparr>, r)
               | Throws e \<Rightarrow> Throws e
               | Undefined \<Rightarrow> Undefined)))"

declare findUp.simps [code]

subsection \<open>The two unions and the query\<close>

text \<open>
  Both unions call \<^verbatim>\<open>findUp(u)\<close>, then \<^verbatim>\<open>findUp(v)\<close>, and then branch on the two
  roots; \<open>rank_step\<close> and \<open>size_step\<close> are these branches, statement by
  statement. Neither compares \<^verbatim>\<open>u_up\<close> with \<^verbatim>\<open>v_up\<close> for equality first. Every
  vector access of a branch is guarded by its bounds.
\<close>

definition rank_step :: "ds \<Rightarrow> int \<Rightarrow> int \<Rightarrow> ds result" where
  "rank_step s u_up v_up =
     (if \<not> (in_bounds (rank s) u_up \<and> in_bounds (rank s) v_up) then Undefined
      else if rank s ! nat u_up < rank s ! nat v_up then
        (if in_bounds (parent s) u_up
         then Returns (s\<lparr>parent := (parent s)[nat u_up := v_up]\<rparr>)
         else Undefined)
      else if rank s ! nat u_up > rank s ! nat v_up then
        (if in_bounds (parent s) v_up
         then Returns (s\<lparr>parent := (parent s)[nat v_up := u_up]\<rparr>)
         else Undefined)
      else
        (if in_bounds (parent s) u_up
         then Returns (s\<lparr>parent := (parent s)[nat u_up := v_up],
                         rank := (rank s)[nat v_up := int32 (rank s ! nat v_up + 1)]\<rparr>)
         else Undefined))"

definition unionByRank :: "ds \<Rightarrow> int \<Rightarrow> int \<Rightarrow> ds result option" where
  "unionByRank s u v =
     (case findUp s u of
        None \<Rightarrow> None
      | Some (Throws e) \<Rightarrow> Some (Throws e)
      | Some Undefined \<Rightarrow> Some Undefined
      | Some (Returns (s1, u_up)) \<Rightarrow>
          (case findUp s1 v of
             None \<Rightarrow> None
           | Some (Throws e) \<Rightarrow> Some (Throws e)
           | Some Undefined \<Rightarrow> Some Undefined
           | Some (Returns (s2, v_up)) \<Rightarrow> Some (rank_step s2 u_up v_up)))"

definition size_step :: "ds \<Rightarrow> int \<Rightarrow> int \<Rightarrow> ds result" where
  "size_step s u_up v_up =
     (if u_up < v_up then
        (if in_bounds (parent s) u_up \<and> in_bounds (size_vec s) v_up
              \<and> in_bounds (size_vec s) u_up
         then Returns (s\<lparr>parent := (parent s)[nat u_up := v_up],
                         size_vec := (size_vec s)[nat v_up :=
                            int32 (size_vec s ! nat v_up + size_vec s ! nat u_up)]\<rparr>)
         else Undefined)
      else
        (if in_bounds (parent s) v_up \<and> in_bounds (size_vec s) u_up
              \<and> in_bounds (size_vec s) v_up
         then Returns (s\<lparr>parent := (parent s)[nat v_up := u_up],
                         size_vec := (size_vec s)[nat u_up :=
                            int32 (size_vec s ! nat u_up + size_vec s ! nat v_up)]\<rparr>)
         else Undefined))"

definition unionBySize :: "ds \<Rightarrow> int \<Rightarrow> int \<Rightarrow> ds result option" where
  "unionBySize s u v =
     (case findUp s u of
        None \<Rightarrow> None
      | Some (Throws e) \<Rightarrow> Some (Throws e)
      | Some Undefined \<Rightarrow> Some Undefined
      | Some (Returns (s1, u_up)) \<Rightarrow>
          (case findUp s1 v of
             None \<Rightarrow> None
           | Some (Throws e) \<Rightarrow> Some (Throws e)
           | Some Undefined \<Rightarrow> Some Undefined
           | Some (Returns (s2, v_up)) \<Rightarrow> Some (size_step s2 u_up v_up)))"

text \<open>
  \<^verbatim>\<open>bool isComponent(int v , int u){ return findUp(v) == findUp(u); }\<close>
  C++ leaves the order of the two calls open; the model takes left to right.
\<close>

definition isComponent :: "ds \<Rightarrow> int \<Rightarrow> int \<Rightarrow> (ds \<times> bool) result option" where
  "isComponent s v u =
     (case findUp s v of
        None \<Rightarrow> None
      | Some (Throws e) \<Rightarrow> Some (Throws e)
      | Some Undefined \<Rightarrow> Some Undefined
      | Some (Returns (s1, a)) \<Rightarrow>
          (case findUp s1 u of
             None \<Rightarrow> None
           | Some (Throws e) \<Rightarrow> Some (Throws e)
           | Some Undefined \<Rightarrow> Some Undefined
           | Some (Returns (s2, b)) \<Rightarrow> Some (Returns (s2, a = b))))"

subsection \<open>Sequences of calls\<close>

text \<open>
  A client of the class is a sequence of calls on one object. \<open>perform s c\<close> is the
  object after the call \<open>c\<close> (its return value dropped), \<open>run s cs\<close> the object
  after the calls \<open>cs\<close> in order; a call that does not return ends the run.
\<close>

datatype call =
    FindUp int
  | UnionByRank int int
  | UnionBySize int int
  | IsComponent int int

definition drop_value :: "('s \<times> 'a) result option \<Rightarrow> 's result option" where
  "drop_value x =
     (case x of
        None \<Rightarrow> None
      | Some (Returns (s, _)) \<Rightarrow> Some (Returns s)
      | Some (Throws e) \<Rightarrow> Some (Throws e)
      | Some Undefined \<Rightarrow> Some Undefined)"

fun perform :: "ds \<Rightarrow> call \<Rightarrow> ds result option" where
  "perform s (FindUp x) = drop_value (findUp s x)"
| "perform s (UnionByRank u v) = unionByRank s u v"
| "perform s (UnionBySize u v) = unionBySize s u v"
| "perform s (IsComponent v u) = drop_value (isComponent s v u)"

fun run :: "ds \<Rightarrow> call list \<Rightarrow> ds result option" where
  "run s [] = Some (Returns s)"
| "run s (c # cs) =
     (case perform s c of
        None \<Rightarrow> None
      | Some (Returns s') \<Rightarrow> run s' cs
      | Some (Throws e) \<Rightarrow> Some (Throws e)
      | Some Undefined \<Rightarrow> Some Undefined)"

text \<open>\<open>call_ok n c\<close>: every element the call names lies in \<open>[0, n]\<close>.\<close>

fun call_ok :: "int \<Rightarrow> call \<Rightarrow> bool" where
  "call_ok n (FindUp x) \<longleftrightarrow> 0 \<le> x \<and> x \<le> n"
| "call_ok n (UnionByRank u v) \<longleftrightarrow> 0 \<le> u \<and> u \<le> n \<and> 0 \<le> v \<and> v \<le> n"
| "call_ok n (UnionBySize u v) \<longleftrightarrow> 0 \<le> u \<and> u \<le> n \<and> 0 \<le> v \<and> v \<le> n"
| "call_ok n (IsComponent v u) \<longleftrightarrow> 0 \<le> u \<and> u \<le> n \<and> 0 \<le> v \<and> v \<le> n"

text \<open>
  A universe size the constructor accepts and whose \<^verbatim>\<open>n+1\<close> fits an \<^verbatim>\<open>int\<close>.
\<close>

definition valid_size :: "int \<Rightarrow> bool" where
  "valid_size n \<longleftrightarrow> 0 \<le> n \<and> n < INT_MAX"

text \<open>The pairs a sequence of calls has united, in order.\<close>

fun union_pairs :: "call list \<Rightarrow> (int \<times> int) list" where
  "union_pairs [] = []"
| "union_pairs (UnionByRank u v # cs) = (u, v) # union_pairs cs"
| "union_pairs (UnionBySize u v # cs) = (u, v) # union_pairs cs"
| "union_pairs (_ # cs) = union_pairs cs"

subsection \<open>What the parent vector means\<close>

text \<open>
  \<open>root_of p i r\<close>: following \<open>p\<close> from \<open>i\<close> stays in bounds and ends at the
  self-parented \<open>r\<close>. \<open>on_path p i y\<close>: \<open>y\<close> is one of the nodes visited on the
  way, \<open>i\<close> and the root included.
\<close>

inductive root_of :: "int list \<Rightarrow> int \<Rightarrow> int \<Rightarrow> bool" for p :: "int list" where
  root: "in_bounds p i \<Longrightarrow> p ! nat i = i \<Longrightarrow> root_of p i i"
| up: "in_bounds p i \<Longrightarrow> p ! nat i \<noteq> i \<Longrightarrow> root_of p (p ! nat i) r \<Longrightarrow> root_of p i r"

inductive on_path :: "int list \<Rightarrow> int \<Rightarrow> int \<Rightarrow> bool" for p :: "int list" where
  here: "in_bounds p i \<Longrightarrow> on_path p i i"
| further: "in_bounds p i \<Longrightarrow> p ! nat i \<noteq> i \<Longrightarrow> on_path p (p ! nat i) y \<Longrightarrow> on_path p i y"

text \<open>The parent edges that are not self-loops.\<close>

definition parent_edges :: "int list \<Rightarrow> (int \<times> int) set" where
  "parent_edges p = {(i, j). in_bounds p i \<and> j = p ! nat i \<and> j \<noteq> i}"

text \<open>Two elements are in the same set when they have a common root.\<close>

definition same_set :: "int list \<Rightarrow> int \<Rightarrow> int \<Rightarrow> bool" where
  "same_set p u v \<longleftrightarrow> (\<exists>r. root_of p u r \<and> root_of p v r)"

text \<open>The partition after \<open>u\<close> and \<open>v\<close> have been united.\<close>

definition joined :: "int list \<Rightarrow> int \<Rightarrow> int \<Rightarrow> int \<Rightarrow> int \<Rightarrow> bool" where
  "joined p u v x y \<longleftrightarrow>
     same_set p x y \<or> (same_set p x u \<and> same_set p v y) \<or> (same_set p x v \<and> same_set p u y)"

text \<open>The set of a root, and the family of all of them.\<close>

definition set_of_root :: "int list \<Rightarrow> int \<Rightarrow> int set" where
  "set_of_root p r = {i. root_of p i r}"

definition root_sets :: "int list \<Rightarrow> int set set" where
  "root_sets p = {set_of_root p r | r. in_bounds p r \<and> p ! nat r = r}"

text \<open>
  Connectivity in the undirected graph of a list of pairs: the reflexive,
  symmetric and transitive closure of the pairs.
\<close>

definition connected :: "(int \<times> int) list \<Rightarrow> int \<Rightarrow> int \<Rightarrow> bool" where
  "connected es u v \<longleftrightarrow> (u, v) \<in> (set es \<union> (set es)\<inverse>)\<^sup>*"

text \<open>
  The invariant of the object: the three vectors have one length, and every
  in-bounds element has a root.
\<close>

definition ds_inv :: "ds \<Rightarrow> bool" where
  "ds_inv s \<longleftrightarrow>
     length (rank s) = length (parent s) \<and> length (size_vec s) = length (parent s) \<and>
     (\<forall>i. in_bounds (parent s) i \<longrightarrow> (\<exists>r. root_of (parent s) i r))"

section \<open>Roots\<close>

lemma root_of_in_bounds: "root_of p i r \<Longrightarrow> in_bounds p i"
  by (erule root_of.cases) auto

lemma root_of_is_root: "root_of p i r \<Longrightarrow> in_bounds p r \<and> p ! nat r = r"
  by (induction rule: root_of.induct) auto

lemma root_of_self: "root_of p i r \<Longrightarrow> root_of p r r"
  by (auto dest: root_of_is_root intro: root_of.root)

lemma root_of_unique: "root_of p i r \<Longrightarrow> root_of p i r' \<Longrightarrow> r' = r"
proof (induction arbitrary: r' rule: root_of.induct)
  case (root i)
  from root.prems root.hyps show ?case
    by (cases rule: root_of.cases) auto
next
  case (up i r)
  from up.prems up.hyps(2) have "root_of p (p ! nat i) r'"
    by (cases rule: root_of.cases) auto
  then show ?case by (rule up.IH)
qed

lemma root_of_parent:
  assumes "in_bounds p i" and "p ! nat i \<noteq> i"
  shows "root_of p (p ! nat i) r \<longleftrightarrow> root_of p i r"
proof
  assume "root_of p (p ! nat i) r"
  with assms show "root_of p i r" by (rule root_of.up)
next
  assume "root_of p i r"
  then show "root_of p (p ! nat i) r"
    using assms by (cases rule: root_of.cases) auto
qed

lemma in_bounds_update [simp]: "in_bounds (p[k := x]) i = in_bounds p i"
  by (simp add: in_bounds_def)

lemma nth_update_int:
  "in_bounds p j \<Longrightarrow> 0 \<le> x \<Longrightarrow> p[nat x := r] ! nat j = (if j = x then r else p ! nat j)"
  by (auto simp: in_bounds_def nth_list_update)

text \<open>Path compression: pointing an element at its own root moves no root.\<close>

lemma compress_root_of_new:
  assumes x: "root_of p x r"
  shows "root_of p j r' \<Longrightarrow> root_of (p[nat x := r]) j r'"
proof (induction rule: root_of.induct)
  case (root i)
  have xb: "0 \<le> x" using root_of_in_bounds [OF x] by (simp add: in_bounds_def)
  show ?case
  proof (cases "i = x")
    case True
    with root x have "r = i" using root_of_unique [OF root_of.root [OF root.hyps]] by blast
    with root True show ?thesis
      by (auto intro!: root_of.root simp: nth_update_int xb)
  next
    case False
    with root show ?thesis
      by (auto intro!: root_of.root simp: nth_update_int xb)
  qed
next
  case (up i r')
  have xb: "0 \<le> x" using root_of_in_bounds [OF x] by (simp add: in_bounds_def)
  show ?case
  proof (cases "i = x")
    case True
    have "root_of p i r'" using up.hyps by (rule root_of.up)
    with True x have rr: "r' = r" using root_of_unique by blast
    have rt: "in_bounds p r \<and> p ! nat r = r" using x by (rule root_of_is_root)
    with up.hyps True have "r \<noteq> x" by auto
    with rt have "root_of (p[nat x := r]) r r"
      by (auto intro!: root_of.root simp: nth_update_int xb)
    moreover have "in_bounds (p[nat x := r]) x" "p[nat x := r] ! nat x = r"
      using up.hyps True by (simp_all add: nth_update_int xb)
    ultimately show ?thesis unfolding rr True using \<open>r \<noteq> x\<close>
      by (metis root_of.up)
  next
    case False
    with up.hyps have "in_bounds (p[nat x := r]) i" "p[nat x := r] ! nat i = p ! nat i"
      by (simp_all add: nth_update_int xb)
    with up show ?thesis
      by (metis root_of.up)
  qed
qed

lemma compress_root_of_old:
  assumes x: "root_of p x r"
  shows "root_of (p[nat x := r]) j r' \<Longrightarrow> root_of p j r'"
proof (induction rule: root_of.induct)
  case (root i)
  have xb: "0 \<le> x" using root_of_in_bounds [OF x] by (simp add: in_bounds_def)
  show ?case
  proof (cases "i = x")
    case True
    with root have "r = x" by (simp add: nth_update_int xb)
    with x True show ?thesis by simp
  next
    case False
    with root show ?thesis
      by (auto intro!: root_of.root simp: nth_update_int xb)
  qed
next
  case (up i r')
  have xb: "0 \<le> x" using root_of_in_bounds [OF x] by (simp add: in_bounds_def)
  show ?case
  proof (cases "i = x")
    case True
    with up have "root_of p r r'" by (simp add: nth_update_int xb)
    with root_of_self [OF x] have "r' = r" using root_of_unique by blast
    with x True show ?thesis by simp
  next
    case False
    with up.hyps have "in_bounds p i" "p[nat x := r] ! nat i = p ! nat i"
      by (simp_all add: nth_update_int xb)
    with up show ?thesis
      by (metis root_of.up)
  qed
qed

lemma compress_root_of:
  "root_of p x r \<Longrightarrow> root_of (p[nat x := r]) j r' \<longleftrightarrow> root_of p j r'"
  using compress_root_of_new compress_root_of_old by blast


text \<open>Linking: pointing the root \<open>a\<close> at another root \<open>b\<close> moves the set of \<open>a\<close> under \<open>b\<close>.\<close>

lemma link_root_of_moved:
  assumes a: "root_of p a a" and b: "root_of p b b" and ab: "a \<noteq> b"
  shows "root_of p j r \<Longrightarrow> r = a \<Longrightarrow> root_of (p[nat a := b]) j b"
proof (induction rule: root_of.induct)
  case (root i)
  have a0: "0 \<le> a" using root_of_in_bounds [OF a] by (simp add: in_bounds_def)
  have "in_bounds p b" "p ! nat b = b" using root_of_is_root [OF b] by simp_all
  then have "root_of (p[nat a := b]) b b"
    using ab by (intro root_of.root) (simp_all add: nth_update_int a0)
  moreover have "in_bounds (p[nat a := b]) a" "p[nat a := b] ! nat a = b"
    using root by (simp_all add: nth_update_int a0)
  ultimately show ?case using root ab by (metis root_of.up)
next
  case (up i r)
  have a0: "0 \<le> a" using root_of_in_bounds [OF a] by (simp add: in_bounds_def)
  have "i \<noteq> a" using up.hyps root_of_is_root [OF a] by auto
  with up.hyps have "in_bounds (p[nat a := b]) i" "p[nat a := b] ! nat i = p ! nat i"
    by (simp_all add: nth_update_int a0)
  with up show ?case by (metis root_of.up)
qed

lemma link_root_of_kept:
  assumes a: "root_of p a a"
  shows "root_of p j r \<Longrightarrow> r \<noteq> a \<Longrightarrow> root_of (p[nat a := b]) j r"
proof (induction rule: root_of.induct)
  case (root i)
  have a0: "0 \<le> a" using root_of_in_bounds [OF a] by (simp add: in_bounds_def)
  from root show ?case
    by (intro root_of.root) (simp_all add: nth_update_int a0)
next
  case (up i r)
  have a0: "0 \<le> a" using root_of_in_bounds [OF a] by (simp add: in_bounds_def)
  have "i \<noteq> a" using up.hyps root_of_is_root [OF a] by auto
  with up.hyps have "in_bounds (p[nat a := b]) i" "p[nat a := b] ! nat i = p ! nat i"
    by (simp_all add: nth_update_int a0)
  with up show ?case by (metis root_of.up)
qed

lemma link_root_of_back:
  assumes a: "root_of p a a" and b: "root_of p b b" and ab: "a \<noteq> b"
  shows "root_of (p[nat a := b]) j r \<Longrightarrow>
         (if root_of p j a then r = b else root_of p j r)"
proof (induction rule: root_of.induct)
  case (root i)
  have a0: "0 \<le> a" using root_of_in_bounds [OF a] by (simp add: in_bounds_def)
  have ia: "i \<noteq> a" using root ab by (auto simp: nth_update_int a0)
  with root have "root_of p i i"
    by (intro root_of.root) (simp_all add: nth_update_int a0)
  moreover from this ia have "\<not> root_of p i a" using root_of_unique by blast
  ultimately show ?case by simp
next
  case (up i r)
  have a0: "0 \<le> a" using root_of_in_bounds [OF a] by (simp add: in_bounds_def)
  show ?case
  proof (cases "i = a")
    case True
    with up.hyps have "p[nat a := b] ! nat i = b" by (simp add: nth_update_int a0)
    moreover have "\<not> root_of p b a" using b ab root_of_unique by blast
    ultimately have "root_of p b r" using up.IH by simp
    with b have "r = b" using root_of_unique by blast
    with a True show ?thesis by simp
  next
    case False
    with up.hyps have ib: "in_bounds p i" and eq: "p[nat a := b] ! nat i = p ! nat i"
      by (simp_all add: nth_update_int a0)
    with up.hyps have ne: "p ! nat i \<noteq> i" by simp
    show ?thesis using up.IH unfolding eq root_of_parent [OF ib ne] .
  qed
qed

lemma link_root_of:
  assumes "root_of p a a" and "root_of p b b" and "a \<noteq> b"
  shows "root_of (p[nat a := b]) j r \<longleftrightarrow> (if root_of p j a then r = b else root_of p j r)"
  using link_root_of_back [OF assms] link_root_of_moved [OF assms] link_root_of_kept [OF assms(1)]
    assms root_of_unique
  by (metis (full_types))


lemma on_path_in_bounds: "on_path p x y \<Longrightarrow> in_bounds p x \<and> in_bounds p y"
  by (induction rule: on_path.induct) auto

lemma on_path_root: "in_bounds p x \<Longrightarrow> p ! nat x = x \<Longrightarrow> on_path p x y \<longleftrightarrow> y = x"
  by (auto elim: on_path.cases intro: on_path.here)

lemma on_path_step:
  "in_bounds p x \<Longrightarrow> p ! nat x \<noteq> x \<Longrightarrow> on_path p x y \<longleftrightarrow> y = x \<or> on_path p (p ! nat x) y"
  by (auto elim: on_path.cases intro: on_path.here on_path.further)

text \<open>
  What \<open>findUp\<close> does where the element has a root: it returns the root, and the
  new parent vector (a function of the old one alone) has the same roots, sends
  every node of the path to the root, and is the old one elsewhere.
\<close>

lemma findUp_spec:
  "root_of p x r \<Longrightarrow>
   \<exists>p'. length p' = length p \<and>
        (\<forall>j r'. root_of p' j r' \<longleftrightarrow> root_of p j r') \<and>
        (\<forall>y. on_path p x y \<longrightarrow> p' ! nat y = r) \<and>
        (\<forall>y. in_bounds p y \<longrightarrow> \<not> on_path p x y \<longrightarrow> p' ! nat y = p ! nat y) \<and>
        (\<forall>s. parent s = p \<longrightarrow> findUp s x = Some (Returns (s\<lparr>parent := p'\<rparr>, r)))"
proof (induction rule: root_of.induct)
  case (root i)
  have "\<forall>s. parent s = p \<longrightarrow> findUp s i = Some (Returns (s\<lparr>parent := p\<rparr>, i))"
    using root by (subst findUp.simps) auto
  moreover have "\<forall>y. on_path p i y \<longrightarrow> p ! nat y = i"
    using root by (simp add: on_path_root)
  ultimately show ?case by blast
next
  case (up i r)
  from up.IH obtain p1 where len: "length p1 = length p"
    and roots: "\<And>j r'. root_of p1 j r' \<longleftrightarrow> root_of p j r'"
    and path: "\<And>y. on_path p (p ! nat i) y \<Longrightarrow> p1 ! nat y = r"
    and rest: "\<And>y. in_bounds p y \<Longrightarrow> \<not> on_path p (p ! nat i) y \<Longrightarrow> p1 ! nat y = p ! nat y"
    and run: "\<And>s. parent s = p \<Longrightarrow> findUp s (p ! nat i) = Some (Returns (s\<lparr>parent := p1\<rparr>, r))"
    by blast
  let ?p' = "p1[nat i := r]"
  have i0: "0 \<le> i" using up.hyps(1) by (simp add: in_bounds_def)
  have ib1: "in_bounds p1 i" using up.hyps(1) len by (simp add: in_bounds_def)
  have bounds: "\<And>y. in_bounds p1 y \<longleftrightarrow> in_bounds p y" using len by (simp add: in_bounds_def)
  have "root_of p i r" using up.hyps by (rule root_of.up)
  then have "root_of p1 i r" by (simp add: roots)
  then have 1: "\<forall>j r'. root_of ?p' j r' \<longleftrightarrow> root_of p j r'"
    by (simp add: compress_root_of roots)
  have 2: "\<forall>y. on_path p i y \<longrightarrow> ?p' ! nat y = r"
  proof (intro allI impI)
    fix y assume y: "on_path p i y"
    then have "in_bounds p1 y" using on_path_in_bounds bounds by blast
    moreover from y have "y = i \<or> on_path p (p ! nat i) y"
      using up.hyps by (simp add: on_path_step)
    ultimately show "?p' ! nat y = r"
      using path by (auto simp: nth_update_int i0)
  qed
  have 3: "\<forall>y. in_bounds p y \<longrightarrow> \<not> on_path p i y \<longrightarrow> ?p' ! nat y = p ! nat y"
  proof (intro allI impI)
    fix y assume yb: "in_bounds p y" and y: "\<not> on_path p i y"
    then have "y \<noteq> i" "\<not> on_path p (p ! nat i) y"
      using up.hyps by (auto simp: on_path_step)
    then show "?p' ! nat y = p ! nat y"
      using rest yb bounds by (simp add: nth_update_int i0)
  qed
  have 4: "\<forall>s. parent s = p \<longrightarrow> findUp s i = Some (Returns (s\<lparr>parent := ?p'\<rparr>, r))"
  proof (intro allI impI)
    fix s :: ds assume s: "parent s = p"
    show "findUp s i = Some (Returns (s\<lparr>parent := ?p'\<rparr>, r))"
      using up.hyps(1,2) run [OF s] s by (subst findUp.simps) auto
  qed
  from len 1 2 3 4 show ?case by (intro exI [of _ ?p']) simp
qed


section \<open>The constructor\<close>

lemma int32_id: "- 2147483648 \<le> x \<Longrightarrow> x < 2147483648 \<Longrightarrow> int32 x = x"
  by (simp add: int32_def)

lemma length_init_parent [simp]: "length (init_parent p i n) = length p"
  by (induction p i n rule: init_parent.induct) (subst init_parent.simps, simp)

lemma nth_init_parent:
  "0 \<le> i \<Longrightarrow> int (length p) = n + 1 \<Longrightarrow> 0 \<le> j \<Longrightarrow> j \<le> n \<Longrightarrow>
   init_parent p i n ! nat j = (if i \<le> j then j else p ! nat j)"
proof (induction p i n rule: init_parent.induct)
  case (1 p i n)
  show ?case
  proof (cases "i \<le> n")
    case True
    have jb: "in_bounds p j" using "1.prems" by (simp add: in_bounds_def)
    have "init_parent p i n ! nat j = init_parent (p[nat i := i]) (i + 1) n ! nat j"
      using True by (subst init_parent.simps) simp
    also have "\<dots> = (if i + 1 \<le> j then j else p[nat i := i] ! nat j)"
      using True "1.prems" by (intro "1.IH") simp_all
    also have "\<dots> = (if i \<le> j then j else p ! nat j)"
      using jb "1.prems"(1) by (auto simp: nth_update_int)
    finally show ?thesis .
  next
    case False
    then show ?thesis using "1.prems" by (subst init_parent.simps) simp
  qed
qed

lemma DisjoinSet_valid:
  assumes "valid_size n"
  shows "\<exists>s. DisjoinSet n = Returns s \<and>
           length (rank s) = nat (n + 1) \<and> length (parent s) = nat (n + 1) \<and>
           length (size_vec s) = nat (n + 1) \<and>
           (\<forall>i. 0 \<le> i \<and> i \<le> n \<longrightarrow>
              parent s ! nat i = i \<and> rank s ! nat i = 0 \<and> size_vec s ! nat i = 1)"
proof -
  have m: "int32 (n + 1) = n + 1"
    using assms by (intro int32_id) (simp_all add: valid_size_def INT_MAX_def)
  have "\<forall>i. 0 \<le> i \<and> i \<le> n \<longrightarrow> init_parent (replicate (nat (n + 1)) 0) 0 n ! nat i = i"
    using assms by (simp add: nth_init_parent valid_size_def)
  moreover have "\<forall>i. 0 \<le> i \<and> i \<le> n \<longrightarrow> nat i < nat (n + 1)"
    by auto
  moreover have "DisjoinSet n = Returns \<lparr>rank = replicate (nat (n + 1)) 0,
      parent = init_parent (replicate (nat (n + 1)) 0) 0 n,
      size_vec = replicate (nat (n + 1)) 1\<rparr>"
    using assms by (simp add: DisjoinSet_def m valid_size_def Let_def)
  ultimately show ?thesis by simp
qed

lemma in_bounds_length: "int (length p) = n + 1 \<Longrightarrow> in_bounds p i \<longleftrightarrow> 0 \<le> i \<and> i \<le> n"
  by (auto simp: in_bounds_def)

lemma DisjoinSet_inv:
  assumes "valid_size n"
  shows "\<exists>s. DisjoinSet n = Returns s \<and> ds_inv s \<and> int (length (parent s)) = n + 1 \<and>
           (\<forall>i r. root_of (parent s) i r \<longleftrightarrow> in_bounds (parent s) i \<and> r = i)"
proof -
  from DisjoinSet_valid [OF assms] obtain s where s: "DisjoinSet n = Returns s"
    and len: "length (rank s) = nat (n + 1)" "length (parent s) = nat (n + 1)"
      "length (size_vec s) = nat (n + 1)"
    and self: "\<And>i. 0 \<le> i \<Longrightarrow> i \<le> n \<Longrightarrow> parent s ! nat i = i"
    by blast
  have l: "int (length (parent s)) = n + 1"
    using assms len by (simp add: valid_size_def)
  have own: "\<And>i. in_bounds (parent s) i \<Longrightarrow> parent s ! nat i = i"
    using self by (simp add: in_bounds_length [OF l])
  have roots: "\<forall>i r. root_of (parent s) i r \<longleftrightarrow> in_bounds (parent s) i \<and> r = i"
  proof (intro allI iffI)
    fix i r assume "root_of (parent s) i r"
    then show "in_bounds (parent s) i \<and> r = i"
      by (cases rule: root_of.cases) (auto simp: own)
  next
    fix i r assume "in_bounds (parent s) i \<and> r = i"
    then show "root_of (parent s) i r" by (auto intro: root_of.root simp: own)
  qed
  then have "ds_inv s" using len by (simp add: ds_inv_def)
  with s l roots show ?thesis by blast
qed

section \<open>Sets, and what a union does to them\<close>

lemma same_set_cong:
  "(\<And>j r. root_of p' j r \<longleftrightarrow> root_of p j r) \<Longrightarrow> same_set p' x y \<longleftrightarrow> same_set p x y"
  by (simp add: same_set_def)

lemma same_set_sym: "same_set p x y \<Longrightarrow> same_set p y x"
  by (auto simp: same_set_def)

lemma same_set_trans: "same_set p x y \<Longrightarrow> same_set p y z \<Longrightarrow> same_set p x z"
  unfolding same_set_def using root_of_unique by blast

lemma same_set_root: "root_of p u a \<Longrightarrow> same_set p x u \<longleftrightarrow> root_of p x a"
  unfolding same_set_def using root_of_unique by blast

lemma same_set_roots: "root_of p u a \<Longrightarrow> root_of p v b \<Longrightarrow> same_set p u v \<longleftrightarrow> a = b"
  unfolding same_set_def using root_of_unique by blast

lemma joined_commute: "joined p u v x y \<longleftrightarrow> joined p v u x y"
  by (auto simp: joined_def)

lemma link_same:
  assumes "root_of p a a"
  shows "p[nat a := a] = p"
  using root_of_is_root [OF assms] by (metis list_update_id)

lemma link_same_set:
  assumes u: "root_of p u a" and v: "root_of p v b"
  shows "same_set (p[nat a := b]) x y \<longleftrightarrow> joined p u v x y"
proof (cases "a = b")
  case True
  then have "same_set p u v" using u v by (simp add: same_set_roots)
  then have "joined p u v x y \<longleftrightarrow> same_set p x y"
    unfolding joined_def using same_set_trans same_set_sym by blast
  then show ?thesis using True link_same [OF root_of_self [OF u]] by simp
next
  case False
  note link = link_root_of [OF root_of_self [OF u] root_of_self [OF v] False]
  have xu: "\<And>x. same_set p x u \<longleftrightarrow> root_of p x a" using u by (rule same_set_root)
  have xv: "\<And>x. same_set p x v \<longleftrightarrow> root_of p x b" using v by (rule same_set_root)
  have ux: "\<And>x. same_set p u x \<longleftrightarrow> root_of p x a" using xu same_set_sym by blast
  have vx: "\<And>x. same_set p v x \<longleftrightarrow> root_of p x b" using xv same_set_sym by blast
  have new: "root_of (p[nat a := b]) j r' \<longleftrightarrow>
      (\<exists>r. root_of p j r \<and> r' = (if r = a then b else r))" for j r'
  proof (cases "root_of p j a")
    case True
    then show ?thesis unfolding link using root_of_unique by auto
  next
    case False
    then have "\<And>r. root_of p j r \<Longrightarrow> r \<noteq> a" by blast
    with False show ?thesis unfolding link by auto
  qed
  have eq: "(if rx = a then b else rx) = (if ry = a then b else ry) \<longleftrightarrow>
      rx = ry \<or> (rx = a \<and> ry = b) \<or> (rx = b \<and> ry = a)" for rx ry
    using False by auto
  have "same_set (p[nat a := b]) x y \<longleftrightarrow>
      (\<exists>rx ry. root_of p x rx \<and> root_of p y ry \<and>
         (if rx = a then b else rx) = (if ry = a then b else ry))"
    unfolding same_set_def new by blast
  also have "\<dots> \<longleftrightarrow> (\<exists>rx ry. root_of p x rx \<and> root_of p y ry \<and>
         (rx = ry \<or> (rx = a \<and> ry = b) \<or> (rx = b \<and> ry = a)))"
    unfolding eq ..
  also have "\<dots> \<longleftrightarrow> joined p u v x y"
    unfolding joined_def xu xv ux vx unfolding same_set_def by blast
  finally show ?thesis .
qed

lemma link_total:
  assumes "root_of p a a" and "root_of p b b" and "root_of p i r"
  shows "\<exists>r'. root_of (p[nat a := b]) i r'"
proof (cases "a = b")
  case True
  then show ?thesis using assms link_same by auto
next
  case False
  show ?thesis unfolding link_root_of [OF assms(1,2) False] using assms(3) by auto
qed


section \<open>The operations on an object that satisfies the invariant\<close>

lemma ds_inv_parent_update:
  assumes "ds_inv s" and "length p' = length (parent s)"
    and "\<And>i r. root_of (parent s) i r \<Longrightarrow> \<exists>r'. root_of p' i r'"
  shows "ds_inv (s\<lparr>parent := p'\<rparr>)"
  using assms unfolding ds_inv_def in_bounds_def by (metis ds.select_convs(1-3) ds.surjective ds.update_convs(2))

lemma findUp_inv:
  assumes inv: "ds_inv s" and x: "in_bounds (parent s) x"
  shows "\<exists>s' r. findUp s x = Some (Returns (s', r)) \<and> root_of (parent s) x r \<and>
           ds_inv s' \<and> length (parent s') = length (parent s) \<and>
           rank s' = rank s \<and> size_vec s' = size_vec s \<and>
           (\<forall>j r'. root_of (parent s') j r' \<longleftrightarrow> root_of (parent s) j r')"
proof -
  from inv x obtain r where r: "root_of (parent s) x r" unfolding ds_inv_def by blast
  from findUp_spec [OF r] obtain p' where len: "length p' = length (parent s)"
    and roots: "\<forall>j r'. root_of p' j r' \<longleftrightarrow> root_of (parent s) j r'"
    and run: "findUp s x = Some (Returns (s\<lparr>parent := p'\<rparr>, r))"
    by blast
  have "ds_inv (s\<lparr>parent := p'\<rparr>)"
    using inv len roots by (intro ds_inv_parent_update) auto
  with r len roots run show ?thesis by simp
qed


lemma link_inv:
  assumes inv: "ds_inv s" and a: "root_of (parent s) a a" and b: "root_of (parent s) b b"
    and p': "parent s' = (parent s)[nat a := b]"
    and len: "length (rank s') = length (rank s)" "length (size_vec s') = length (size_vec s)"
  shows "ds_inv s'"
  unfolding ds_inv_def
proof (intro conjI allI impI)
  show "length (rank s') = length (parent s')" "length (size_vec s') = length (parent s')"
    using inv len p' by (simp_all add: ds_inv_def)
next
  fix i assume "in_bounds (parent s') i"
  then have "in_bounds (parent s) i" by (simp add: p')
  with inv obtain r where "root_of (parent s) i r" unfolding ds_inv_def by blast
  from link_total [OF a b this] show "\<exists>r. root_of (parent s') i r" by (simp add: p')
qed

lemma rank_step_spec:
  assumes inv: "ds_inv s" and a: "root_of (parent s) a a" and b: "root_of (parent s) b b"
  shows "\<exists>s'. rank_step s a b = Returns s' \<and> ds_inv s' \<and>
           length (parent s') = length (parent s) \<and> size_vec s' = size_vec s \<and>
           (parent s' = (parent s)[nat a := b] \<or> parent s' = (parent s)[nat b := a])"
proof -
  have ab: "in_bounds (parent s) a" "in_bounds (parent s) b"
    using a b root_of_in_bounds by blast+
  then have rb: "in_bounds (rank s) a" "in_bounds (rank s) b"
    using inv by (simp_all add: ds_inv_def in_bounds_def)
  consider (lt) "rank s ! nat a < rank s ! nat b" | (gt) "rank s ! nat a > rank s ! nat b"
    | (eq) "rank s ! nat a = rank s ! nat b" by linarith
  then show ?thesis
  proof cases
    case lt
    let ?s' = "s\<lparr>parent := (parent s)[nat a := b]\<rparr>"
    have "rank_step s a b = Returns ?s'" using lt ab rb by (simp add: rank_step_def)
    moreover have "ds_inv ?s'" by (rule link_inv [OF inv a b]) simp_all
    ultimately show ?thesis by simp
  next
    case gt
    let ?s' = "s\<lparr>parent := (parent s)[nat b := a]\<rparr>"
    have "rank_step s a b = Returns ?s'" using gt ab rb by (simp add: rank_step_def)
    moreover have "ds_inv ?s'" by (rule link_inv [OF inv b a]) simp_all
    ultimately show ?thesis by simp
  next
    case eq
    let ?s' = "s\<lparr>parent := (parent s)[nat a := b],
                  rank := (rank s)[nat b := int32 (rank s ! nat b + 1)]\<rparr>"
    have "rank_step s a b = Returns ?s'" using eq ab rb by (simp add: rank_step_def)
    moreover have "ds_inv ?s'" by (rule link_inv [OF inv a b]) simp_all
    ultimately show ?thesis by simp
  qed
qed

lemma size_step_spec:
  assumes inv: "ds_inv s" and a: "root_of (parent s) a a" and b: "root_of (parent s) b b"
  shows "\<exists>s'. size_step s a b = Returns s' \<and> ds_inv s' \<and>
           length (parent s') = length (parent s) \<and> rank s' = rank s \<and>
           (parent s' = (parent s)[nat a := b] \<or> parent s' = (parent s)[nat b := a])"
proof -
  have ab: "in_bounds (parent s) a" "in_bounds (parent s) b"
    using a b root_of_in_bounds by blast+
  then have sb: "in_bounds (size_vec s) a" "in_bounds (size_vec s) b"
    using inv by (simp_all add: ds_inv_def in_bounds_def)
  show ?thesis
  proof (cases "a < b")
    case True
    let ?s' = "s\<lparr>parent := (parent s)[nat a := b],
        size_vec := (size_vec s)[nat b := int32 (size_vec s ! nat b + size_vec s ! nat a)]\<rparr>"
    have "size_step s a b = Returns ?s'" using True ab sb by (simp add: size_step_def)
    moreover have "ds_inv ?s'" by (rule link_inv [OF inv a b]) simp_all
    ultimately show ?thesis by simp
  next
    case False
    let ?s' = "s\<lparr>parent := (parent s)[nat b := a],
        size_vec := (size_vec s)[nat a := int32 (size_vec s ! nat a + size_vec s ! nat b)]\<rparr>"
    have "size_step s a b = Returns ?s'" using False ab sb by (simp add: size_step_def)
    moreover have "ds_inv ?s'" by (rule link_inv [OF inv b a]) simp_all
    ultimately show ?thesis by simp
  qed
qed

text \<open>Both unions, from two elements in bounds: they return, and unite the two sets.\<close>

lemma union_frame:
  assumes inv: "ds_inv s" and u: "in_bounds (parent s) u" and v: "in_bounds (parent s) v"
  shows "\<exists>s1 a s2 b. findUp s u = Some (Returns (s1, a)) \<and> findUp s1 v = Some (Returns (s2, b)) \<and>
           ds_inv s2 \<and> length (parent s2) = length (parent s) \<and>
           rank s2 = rank s \<and> size_vec s2 = size_vec s \<and>
           root_of (parent s2) u a \<and> root_of (parent s2) v b \<and>
           (\<forall>j r. root_of (parent s2) j r \<longleftrightarrow> root_of (parent s) j r)"
proof -
  from findUp_inv [OF inv u] obtain s1 a where 1: "findUp s u = Some (Returns (s1, a))"
    "root_of (parent s) u a" "ds_inv s1" "length (parent s1) = length (parent s)"
    "rank s1 = rank s" "size_vec s1 = size_vec s"
    "\<forall>j r'. root_of (parent s1) j r' \<longleftrightarrow> root_of (parent s) j r'"
    by blast
  have v1: "in_bounds (parent s1) v" using v 1(4) by (simp add: in_bounds_def)
  from findUp_inv [OF 1(3) v1] obtain s2 b where 2: "findUp s1 v = Some (Returns (s2, b))"
    "root_of (parent s1) v b" "ds_inv s2" "length (parent s2) = length (parent s1)"
    "rank s2 = rank s1" "size_vec s2 = size_vec s1"
    "\<forall>j r'. root_of (parent s2) j r' \<longleftrightarrow> root_of (parent s1) j r'"
    by blast
  from 1 2 show ?thesis by simp
qed

lemma unionByRank_inv:
  assumes inv: "ds_inv s" and u: "in_bounds (parent s) u" and v: "in_bounds (parent s) v"
  shows "\<exists>s'. unionByRank s u v = Some (Returns s') \<and> ds_inv s' \<and>
           length (parent s') = length (parent s) \<and> size_vec s' = size_vec s \<and>
           (\<forall>x y. same_set (parent s') x y \<longleftrightarrow> joined (parent s) u v x y)"
proof -
  from union_frame [OF assms] obtain s1 a s2 b where
    f: "findUp s u = Some (Returns (s1, a))" "findUp s1 v = Some (Returns (s2, b))"
    and s2: "ds_inv s2" "length (parent s2) = length (parent s)" "size_vec s2 = size_vec s"
    and ab: "root_of (parent s2) u a" "root_of (parent s2) v b"
    and roots: "\<And>j r. root_of (parent s2) j r \<longleftrightarrow> root_of (parent s) j r"
    by blast
  from rank_step_spec [OF s2(1) root_of_self [OF ab(1)] root_of_self [OF ab(2)]]
  obtain s' where s': "rank_step s2 a b = Returns s'" "ds_inv s'"
    "length (parent s') = length (parent s2)" "size_vec s' = size_vec s2"
    "parent s' = (parent s2)[nat a := b] \<or> parent s' = (parent s2)[nat b := a]"
    by blast
  have "same_set (parent s') x y \<longleftrightarrow> joined (parent s2) u v x y" for x y
    using s'(5) link_same_set [OF ab] link_same_set [OF ab(2,1)] joined_commute by auto
  moreover have "joined (parent s2) u v x y \<longleftrightarrow> joined (parent s) u v x y" for x y
    unfolding joined_def by (simp add: same_set_cong [OF roots])
  moreover have "unionByRank s u v = Some (Returns s')"
    using f s'(1) by (simp add: unionByRank_def)
  ultimately show ?thesis using s' s2 by simp
qed

lemma unionBySize_inv:
  assumes inv: "ds_inv s" and u: "in_bounds (parent s) u" and v: "in_bounds (parent s) v"
  shows "\<exists>s'. unionBySize s u v = Some (Returns s') \<and> ds_inv s' \<and>
           length (parent s') = length (parent s) \<and> rank s' = rank s \<and>
           (\<forall>x y. same_set (parent s') x y \<longleftrightarrow> joined (parent s) u v x y)"
proof -
  from union_frame [OF assms] obtain s1 a s2 b where
    f: "findUp s u = Some (Returns (s1, a))" "findUp s1 v = Some (Returns (s2, b))"
    and s2: "ds_inv s2" "length (parent s2) = length (parent s)" "rank s2 = rank s"
    and ab: "root_of (parent s2) u a" "root_of (parent s2) v b"
    and roots: "\<And>j r. root_of (parent s2) j r \<longleftrightarrow> root_of (parent s) j r"
    by blast
  from size_step_spec [OF s2(1) root_of_self [OF ab(1)] root_of_self [OF ab(2)]]
  obtain s' where s': "size_step s2 a b = Returns s'" "ds_inv s'"
    "length (parent s') = length (parent s2)" "rank s' = rank s2"
    "parent s' = (parent s2)[nat a := b] \<or> parent s' = (parent s2)[nat b := a]"
    by blast
  have "same_set (parent s') x y \<longleftrightarrow> joined (parent s2) u v x y" for x y
    using s'(5) link_same_set [OF ab] link_same_set [OF ab(2,1)] joined_commute by auto
  moreover have "joined (parent s2) u v x y \<longleftrightarrow> joined (parent s) u v x y" for x y
    unfolding joined_def by (simp add: same_set_cong [OF roots])
  moreover have "unionBySize s u v = Some (Returns s')"
    using f s'(1) by (simp add: unionBySize_def)
  ultimately show ?thesis using s' s2 by simp
qed

lemma isComponent_inv:
  assumes inv: "ds_inv s" and v: "in_bounds (parent s) v" and u: "in_bounds (parent s) u"
  shows "\<exists>s'. isComponent s v u = Some (Returns (s', same_set (parent s) v u)) \<and> ds_inv s' \<and>
           length (parent s') = length (parent s) \<and>
           rank s' = rank s \<and> size_vec s' = size_vec s \<and>
           (\<forall>j r. root_of (parent s') j r \<longleftrightarrow> root_of (parent s) j r)"
proof -
  from union_frame [OF inv v u] obtain s1 a s2 b where
    f: "findUp s v = Some (Returns (s1, a))" "findUp s1 u = Some (Returns (s2, b))"
    and s2: "ds_inv s2" "length (parent s2) = length (parent s)" "rank s2 = rank s"
      "size_vec s2 = size_vec s"
    and ab: "root_of (parent s2) v a" "root_of (parent s2) u b"
    and roots: "\<And>j r. root_of (parent s2) j r \<longleftrightarrow> root_of (parent s) j r"
    by blast
  have "same_set (parent s) v u \<longleftrightarrow> a = b"
    using ab by (simp add: same_set_roots roots [symmetric])
  then have "isComponent s v u = Some (Returns (s2, same_set (parent s) v u))"
    using f by (simp add: isComponent_def)
  with s2 roots show ?thesis by simp
qed


section \<open>Connectivity in the graph of the united pairs\<close>

lemma connected_refl: "connected es x x"
  by (simp add: connected_def)

lemma connected_sym: "connected es x y \<Longrightarrow> connected es y x"
  unfolding connected_def
  using sym_rtrancl [OF sym_Un_converse, of "set es"] by (auto dest: symD)

lemma connected_trans: "connected es x y \<Longrightarrow> connected es y z \<Longrightarrow> connected es x z"
  unfolding connected_def by (rule rtrancl_trans)

lemma connected_edge: "(a, b) \<in> set es \<Longrightarrow> connected es a b"
  unfolding connected_def by blast

lemma connected_mono: "set es \<subseteq> set es' \<Longrightarrow> connected es x y \<Longrightarrow> connected es' x y"
  unfolding connected_def by (rule rtrancl_mono [THEN subsetD, rotated]) auto

lemma connected_Nil: "connected [] x y \<longleftrightarrow> x = y"
  by (simp add: connected_def)

lemma connected_snoc:
  "connected (es @ [(a, b)]) x y \<longleftrightarrow>
     connected es x y \<or> (connected es x a \<and> connected es b y) \<or>
     (connected es x b \<and> connected es a y)"
  (is "?L \<longleftrightarrow> ?R x y")
proof
  assume ?L
  then have "(x, y) \<in> (set (es @ [(a, b)]) \<union> (set (es @ [(a, b)]))\<inverse>)\<^sup>*"
    by (simp add: connected_def)
  then show "?R x y"
  proof (induction rule: rtrancl_induct)
    case base
    show ?case by (simp add: connected_refl)
  next
    case (step y z)
    from step.hyps(2) consider "(y, z) \<in> set es \<union> (set es)\<inverse>" | "y = a \<and> z = b" | "y = b \<and> z = a"
      by auto
    then show ?case
    proof cases
      case 1
      then have "connected es y z" unfolding connected_def by blast
      with step.IH show ?thesis using connected_trans by blast
    next
      case 2
      with step.IH show ?thesis
        using connected_trans connected_sym connected_refl by blast
    next
      case 3
      with step.IH show ?thesis
        using connected_trans connected_sym connected_refl by blast
    qed
  qed
next
  let ?es = "es @ [(a, b)]"
  have up: "\<And>x y. connected es x y \<Longrightarrow> connected ?es x y"
    by (rule connected_mono [rotated]) auto
  have ab: "connected ?es a b" by (rule connected_edge) simp
  then have ba: "connected ?es b a" by (rule connected_sym)
  assume "?R x y"
  then show ?L using up ab ba connected_trans by blast
qed

section \<open>Sequences of calls\<close>

text \<open>What each call does to the sets.\<close>

lemma perform_inv:
  assumes inv: "ds_inv s" and len: "int (length (parent s)) = n + 1" and ok: "call_ok n c"
  shows "\<exists>s'. perform s c = Some (Returns s') \<and> ds_inv s' \<and>
           length (parent s') = length (parent s) \<and>
           (\<forall>x y. same_set (parent s') x y \<longleftrightarrow>
              (case union_pairs [c] of [] \<Rightarrow> same_set (parent s) x y
               | (u, v) # _ \<Rightarrow> joined (parent s) u v x y))"
proof (cases c)
  case (FindUp x)
  with ok have "in_bounds (parent s) x" by (simp add: in_bounds_length [OF len])
  from findUp_inv [OF inv this] show ?thesis
    unfolding FindUp by (auto simp: drop_value_def same_set_def)
next
  case (UnionByRank u v)
  with ok have "in_bounds (parent s) u" "in_bounds (parent s) v"
    by (simp_all add: in_bounds_length [OF len])
  from unionByRank_inv [OF inv this] show ?thesis
    unfolding UnionByRank by auto
next
  case (UnionBySize u v)
  with ok have "in_bounds (parent s) u" "in_bounds (parent s) v"
    by (simp_all add: in_bounds_length [OF len])
  from unionBySize_inv [OF inv this] show ?thesis
    unfolding UnionBySize by auto
next
  case (IsComponent v u)
  with ok have "in_bounds (parent s) v" "in_bounds (parent s) u"
    by (simp_all add: in_bounds_length [OF len])
  from isComponent_inv [OF inv this] show ?thesis
    unfolding IsComponent by (auto simp: drop_value_def same_set_def)
qed

lemma run_inv:
  assumes "ds_inv s" and "int (length (parent s)) = n + 1" and "\<forall>c \<in> set cs. call_ok n c"
    and "\<forall>x y. in_bounds (parent s) x \<and> in_bounds (parent s) y \<longrightarrow>
           (same_set (parent s) x y \<longleftrightarrow> connected es x y)"
  shows "\<exists>s'. run s cs = Some (Returns s') \<and> ds_inv s' \<and>
           length (parent s') = length (parent s) \<and>
           (\<forall>x y. in_bounds (parent s') x \<and> in_bounds (parent s') y \<longrightarrow>
              (same_set (parent s') x y \<longleftrightarrow> connected (es @ union_pairs cs) x y))"
  using assms
proof (induction cs arbitrary: s es)
  case Nil
  then show ?case by simp
next
  case (Cons c cs)
  from Cons.prems(3) have ok: "call_ok n c" and oks: "\<forall>c \<in> set cs. call_ok n c" by simp_all
  from perform_inv [OF Cons.prems(1,2) ok] obtain s1 where
    s1: "perform s c = Some (Returns s1)" "ds_inv s1" "length (parent s1) = length (parent s)"
    and sets: "\<And>x y. same_set (parent s1) x y \<longleftrightarrow>
              (case union_pairs [c] of [] \<Rightarrow> same_set (parent s) x y
               | (u, v) # _ \<Rightarrow> joined (parent s) u v x y)"
    by blast
  have len1: "int (length (parent s1)) = n + 1" using s1(3) Cons.prems(2) by simp
  have b: "\<And>x. in_bounds (parent s1) x \<longleftrightarrow> in_bounds (parent s) x"
    using s1(3) by (simp add: in_bounds_def)
  note len = Cons.prems(2) and start = Cons.prems(4)
  have conn: "\<forall>x y. in_bounds (parent s1) x \<and> in_bounds (parent s1) y \<longrightarrow>
      (same_set (parent s1) x y \<longleftrightarrow> connected (es @ union_pairs [c]) x y)"
  proof (cases "union_pairs [c]")
    case Nil
    with sets start show ?thesis by (simp add: b)
  next
    case pairs: (Cons e es')
    obtain u v where e: "e = (u, v)" by (cases e)
    from pairs e have c: "c = UnionByRank u v \<or> c = UnionBySize u v" and es': "es' = []"
      by (cases c; simp)+
    from c ok have "0 \<le> u \<and> u \<le> n \<and> 0 \<le> v \<and> v \<le> n" by auto
    then have uv: "in_bounds (parent s) u" "in_bounds (parent s) v"
      by (simp_all add: in_bounds_length [OF len])
    have "same_set (parent s1) x y \<longleftrightarrow> joined (parent s) u v x y" for x y
      by (simp add: sets pairs e)
    then show ?thesis
      unfolding pairs e es' connected_snoc joined_def
      using start uv by (simp add: b)
  qed
  from Cons.IH [OF s1(2) len1 oks conn] obtain s' where
    "run s1 cs = Some (Returns s')" "ds_inv s'" "length (parent s') = length (parent s1)"
    "\<forall>x y. in_bounds (parent s') x \<and> in_bounds (parent s') y \<longrightarrow>
       (same_set (parent s') x y \<longleftrightarrow> connected ((es @ union_pairs [c]) @ union_pairs cs) x y)"
    by blast
  moreover have "(es @ union_pairs [c]) @ union_pairs cs = es @ union_pairs (c # cs)"
    by (cases c) simp_all
  ultimately show ?case using s1 by auto
qed

text \<open>Every object a client can reach from the constructor by calls in range.\<close>

lemma reachable:
  assumes n: "valid_size n" and ok: "\<forall>c \<in> set cs. call_ok n c"
  shows "\<exists>s0 s. DisjoinSet n = Returns s0 \<and> run s0 cs = Some (Returns s) \<and> ds_inv s \<and>
           int (length (parent s)) = n + 1 \<and>
           (\<forall>x y. in_bounds (parent s) x \<and> in_bounds (parent s) y \<longrightarrow>
              (same_set (parent s) x y \<longleftrightarrow> connected (union_pairs cs) x y))"
proof -
  from DisjoinSet_inv [OF n] obtain s0 where s0: "DisjoinSet n = Returns s0" "ds_inv s0"
    "int (length (parent s0)) = n + 1"
    and roots: "\<And>i r. root_of (parent s0) i r \<longleftrightarrow> in_bounds (parent s0) i \<and> r = i"
    by blast
  have "\<forall>x y. in_bounds (parent s0) x \<and> in_bounds (parent s0) y \<longrightarrow>
      (same_set (parent s0) x y \<longleftrightarrow> connected [] x y)"
    by (auto simp: same_set_def roots connected_Nil)
  from run_inv [OF s0(2,3) ok this] s0 show ?thesis by auto
qed

section \<open>The forest\<close>

lemma no_cycle_through: "root_of p x r \<Longrightarrow> (x, x) \<notin> (parent_edges p)\<^sup>+"
proof (induction rule: root_of.induct)
  case (root i)
  show ?case
  proof
    assume "(i, i) \<in> (parent_edges p)\<^sup>+"
    then obtain z where "(i, z) \<in> parent_edges p" by (auto dest: tranclD)
    with root show False by (simp add: parent_edges_def)
  qed
next
  case (up i r)
  show ?case
  proof
    assume "(i, i) \<in> (parent_edges p)\<^sup>+"
    then obtain z where z: "(i, z) \<in> parent_edges p" "(z, i) \<in> (parent_edges p)\<^sup>*"
      by (auto dest: tranclD)
    then have "z = p ! nat i" by (simp add: parent_edges_def)
    with z have "(p ! nat i, p ! nat i) \<in> (parent_edges p)\<^sup>+"
      by (auto intro: rtrancl_into_trancl1)
    with up.IH show False by simp
  qed
qed

lemma parent_edges_acyclic:
  assumes "ds_inv s"
  shows "acyclic (parent_edges (parent s))"
proof (rule acyclicI, intro allI notI)
  fix x assume c: "(x, x) \<in> (parent_edges (parent s))\<^sup>+"
  then obtain z where "(x, z) \<in> parent_edges (parent s)" by (auto dest: tranclD)
  then have "in_bounds (parent s) x" by (simp add: parent_edges_def)
  with assms obtain r where "root_of (parent s) x r" unfolding ds_inv_def by blast
  from no_cycle_through [OF this] c show False by simp
qed

lemma unique_root:
  assumes "ds_inv s" and "in_bounds (parent s) i"
  shows "\<exists>!r. root_of (parent s) i r"
  using assms root_of_unique unfolding ds_inv_def by blast

lemma root_sets_partition:
  assumes inv: "ds_inv s"
  shows "partition_on {i. in_bounds (parent s) i} (root_sets (parent s))"
proof (rule partition_onI)
  show "\<Union> (root_sets (parent s)) = {i. in_bounds (parent s) i}"
  proof (intro set_eqI iffI)
    fix i assume "i \<in> \<Union> (root_sets (parent s))"
    then show "i \<in> {i. in_bounds (parent s) i}"
      by (auto simp: root_sets_def set_of_root_def dest: root_of_in_bounds)
  next
    fix i assume "i \<in> {i. in_bounds (parent s) i}"
    with inv obtain r where r: "root_of (parent s) i r" unfolding ds_inv_def by blast
    then have "set_of_root (parent s) r \<in> root_sets (parent s)"
      using root_of_is_root [OF r] unfolding root_sets_def by blast
    with r show "i \<in> \<Union> (root_sets (parent s))"
      by (auto simp: set_of_root_def)
  qed
next
  fix A B assume "A \<in> root_sets (parent s)" "B \<in> root_sets (parent s)" "A \<noteq> B"
  then obtain a b where "A = set_of_root (parent s) a" "B = set_of_root (parent s) b" "a \<noteq> b"
    unfolding root_sets_def by blast
  then show "disjnt A B"
    unfolding disjnt_def set_of_root_def using root_of_unique by blast
next
  show "{} \<notin> root_sets (parent s)"
    unfolding root_sets_def set_of_root_def by (auto intro: root_of.root)
qed

lemma bounds_interval: "int (length p) = n + 1 \<Longrightarrow> {i. in_bounds p i} = {0..n}"
  by (auto simp: in_bounds_def)

section \<open>Finding twice, and finding on a cycle\<close>

lemma findUp_again:
  assumes r: "root_of (parent s) x r" and px: "parent s ! nat x = r"
  shows "findUp s x = Some (Returns (s, r))"
proof (cases "x = r")
  case True
  with px root_of_in_bounds [OF r] show ?thesis by (subst findUp.simps) simp
next
  case False
  have "in_bounds (parent s) r" "parent s ! nat r = r"
    using root_of_is_root [OF r] by simp_all
  then have "findUp s r = Some (Returns (s, r))" by (subst findUp.simps) simp
  moreover have "(parent s)[nat x := r] = parent s" using px by (metis list_update_id)
  ultimately show ?thesis
    using False px root_of_in_bounds [OF r] by (subst findUp.simps) simp
qed

text \<open>
  Where the parent vector has a cycle the recursion of \<open>findUp\<close> has no end: on
  \<open>parent = [1, 0]\<close> no call returns anything.
\<close>

lemma findUp_on_cycle:
  "findUp s x = Some y \<Longrightarrow> parent s = [1, 0] \<longrightarrow> (x = 0 \<or> x = 1) \<longrightarrow> False"
proof (erule findUp.raw_induct [rotated], intro impI)
  fix f :: "ds \<Rightarrow> int \<Rightarrow> (ds \<times> int) result option"
    and s :: ds and node :: int and y :: "(ds \<times> int) result"
  assume IH: "\<And>s node y. f s node = Some y \<Longrightarrow>
                parent s = [1, 0] \<longrightarrow> (node = 0 \<or> node = 1) \<longrightarrow> False"
    and p: "parent s = [1, 0]" and x: "node = 0 \<or> node = 1"
  assume "(if \<not> in_bounds (parent s) node then Some Undefined
      else if node = parent s ! nat node then Some (Returns (s, node))
      else Option.bind (f s (parent s ! nat node))
             (\<lambda>res. Some (case res of
                 Returns (s', r) \<Rightarrow> Returns (s'\<lparr>parent := (parent s')[nat node := r]\<rparr>, r)
               | Throws e \<Rightarrow> Throws e
               | Undefined \<Rightarrow> Undefined))) = Some y"
  with p x obtain y' where "f s (parent s ! nat node) = Some y'"
    by (auto simp: in_bounds_def bind_eq_Some_conv split: if_splits)
  from IH [OF this] p x show False by auto
qed

lemma findUp_runs_forever:
  "findUp \<lparr>rank = [0, 0], parent = [1, 0], size_vec = [1, 1]\<rparr> 0 = None"
  using findUp_on_cycle [of "\<lparr>rank = [0, 0], parent = [1, 0], size_vec = [1, 1]\<rparr>" 0]
  by (cases "findUp \<lparr>rank = [0, 0], parent = [1, 0], size_vec = [1, 1]\<rparr> 0") auto

section \<open>What the operations read\<close>

text \<open>
  The two finds that open both unions and the query, on any object with the
  given parent vector: the vectors after each find depend on the parent vector
  alone.
\<close>

lemma two_finds:
  assumes u: "root_of p u a" and v: "root_of p v b"
  shows "\<exists>p1 p2. length p2 = length p \<and> root_of p2 a a \<and> root_of p2 b b \<and>
           (\<forall>t. parent t = p \<longrightarrow>
              findUp t u = Some (Returns (t\<lparr>parent := p1\<rparr>, a)) \<and>
              findUp (t\<lparr>parent := p1\<rparr>) v = Some (Returns (t\<lparr>parent := p2\<rparr>, b)))"
proof -
  from findUp_spec [OF u] obtain p1 where 1: "length p1 = length p"
    "\<And>j r'. root_of p1 j r' \<longleftrightarrow> root_of p j r'"
    "\<And>t. parent t = p \<Longrightarrow> findUp t u = Some (Returns (t\<lparr>parent := p1\<rparr>, a))"
    by blast
  from v have "root_of p1 v b" by (simp add: 1(2))
  from findUp_spec [OF this] obtain p2 where 2: "length p2 = length p1"
    "\<And>j r'. root_of p2 j r' \<longleftrightarrow> root_of p1 j r'"
    "\<And>t. parent t = p1 \<Longrightarrow> findUp t v = Some (Returns (t\<lparr>parent := p2\<rparr>, b))"
    by blast
  have "root_of p2 a a" "root_of p2 b b"
    using root_of_self [OF u] root_of_self [OF v] by (simp_all add: 1(2) 2(2))
  moreover have "findUp (t\<lparr>parent := p1\<rparr>) v = Some (Returns (t\<lparr>parent := p2\<rparr>, b))" for t :: ds
    using 2(3) [of "t\<lparr>parent := p1\<rparr>"] by simp
  ultimately show ?thesis using 1 2 by (intro exI [of _ p1] exI [of _ p2]) simp
qed

lemma rank_step_size_vec:
  "rank_step (t\<lparr>size_vec := sz\<rparr>) a b =
     (case rank_step t a b of Returns t' \<Rightarrow> Returns (t'\<lparr>size_vec := sz\<rparr>)
      | Throws e \<Rightarrow> Throws e | Undefined \<Rightarrow> Undefined)"
  by (simp add: rank_step_def)

lemma size_step_rank:
  "size_step (t\<lparr>rank := rk\<rparr>) a b =
     (case size_step t a b of Returns t' \<Rightarrow> Returns (t'\<lparr>rank := rk\<rparr>)
      | Throws e \<Rightarrow> Throws e | Undefined \<Rightarrow> Undefined)"
  by (simp add: size_step_def)

lemma unions_unfold:
  assumes u: "root_of p u a" and v: "root_of p v b"
  shows "\<exists>p2. length p2 = length p \<and> root_of p2 a a \<and> root_of p2 b b \<and>
           (\<forall>t. parent t = p \<longrightarrow>
              unionByRank t u v = Some (rank_step (t\<lparr>parent := p2\<rparr>) a b) \<and>
              unionBySize t u v = Some (size_step (t\<lparr>parent := p2\<rparr>) a b) \<and>
              isComponent t u v = Some (Returns (t\<lparr>parent := p2\<rparr>, a = b)))"
proof -
  from two_finds [OF u v] obtain p1 p2 where p: "length p2 = length p" "root_of p2 a a"
    "root_of p2 b b"
    and f: "\<And>t. parent t = p \<Longrightarrow>
              findUp t u = Some (Returns (t\<lparr>parent := p1\<rparr>, a)) \<and>
              findUp (t\<lparr>parent := p1\<rparr>) v = Some (Returns (t\<lparr>parent := p2\<rparr>, b))"
    by blast
  have "\<forall>t. parent t = p \<longrightarrow>
          unionByRank t u v = Some (rank_step (t\<lparr>parent := p2\<rparr>) a b) \<and>
          unionBySize t u v = Some (size_step (t\<lparr>parent := p2\<rparr>) a b) \<and>
          isComponent t u v = Some (Returns (t\<lparr>parent := p2\<rparr>, a = b))"
    using f by (simp add: unionByRank_def unionBySize_def isComponent_def)
  with p show ?thesis by blast
qed

section \<open>Identifiers out of range\<close>

lemma findUp_out_of_bounds: "\<not> in_bounds (parent s) x \<Longrightarrow> findUp s x = Some Undefined"
  by (subst findUp.simps) simp

lemma second_find_out_of_bounds:
  assumes inv: "ds_inv s" and x: "\<not> in_bounds (parent s) x"
  shows "\<exists>r. (findUp s y = Some Undefined \<or>
           (\<exists>s1. findUp s y = Some (Returns (s1, r)) \<and> findUp s1 x = Some Undefined))"
proof (cases "in_bounds (parent s) y")
  case True
  from findUp_inv [OF inv True] obtain s1 r where
    1: "findUp s y = Some (Returns (s1, r))" "length (parent s1) = length (parent s)"
    by blast
  with x have "\<not> in_bounds (parent s1) x" by (simp add: in_bounds_def)
  with 1 show ?thesis using findUp_out_of_bounds by blast
next
  case False
  then show ?thesis using findUp_out_of_bounds by blast
qed

section \<open>The claims\<close>

text \<open>
  C1. For every valid universe size \<open>n\<close> and every sequence \<open>cs\<close> of calls in
  range on the object the constructor built (unions by rank and by size, and
  finds and queries in between if any), \<open>isComponent(u, v)\<close> afterwards returns,
  and returns true exactly when \<open>u\<close> and \<open>v\<close> are connected in the undirected
  graph whose edges are the pairs united by \<open>cs\<close>, for all \<open>u\<close>, \<open>v\<close> in \<open>[0, n]\<close>.
\<close>

theorem isComponent_is_connectivity:
  assumes "valid_size n" and "list_all (call_ok n) cs"
    and "0 \<le> u \<and> u \<le> n" and "0 \<le> v \<and> v \<le> n"
  shows "\<exists>s0 s s'. DisjoinSet n = Returns s0 \<and> run s0 cs = Some (Returns s) \<and>
           isComponent s u v = Some (Returns (s', connected (union_pairs cs) u v))"
proof -
  from assms(2) have "\<forall>c \<in> set cs. call_ok n c" by (simp add: list_all_iff)
  from reachable [OF assms(1) this] obtain s0 s where
    s: "DisjoinSet n = Returns s0" "run s0 cs = Some (Returns s)" "ds_inv s"
    and len: "int (length (parent s)) = n + 1"
    and conn: "\<And>x y. in_bounds (parent s) x \<and> in_bounds (parent s) y \<Longrightarrow>
                 same_set (parent s) x y \<longleftrightarrow> connected (union_pairs cs) x y"
    by blast
  have uv: "in_bounds (parent s) u" "in_bounds (parent s) v"
    using assms(3,4) by (simp_all add: in_bounds_length [OF len])
  from isComponent_inv [OF s(3) uv] obtain s' where
    "isComponent s u v = Some (Returns (s', same_set (parent s) u v))" by blast
  with s conn uv show ?thesis by auto
qed

theorem isComponent_is_connectivity_witness:
  "\<exists>s0 s s'. DisjoinSet 5 = Returns s0 \<and>
     run s0 [UnionByRank 1 2, UnionBySize 2 3, UnionByRank 4 5] = Some (Returns s) \<and>
     isComponent s 1 3 = Some (Returns (s', connected [(1, 2), (2, 3), (4, 5)] 1 3))"
  using isComponent_is_connectivity
    [of 5 "[UnionByRank 1 2, UnionBySize 2 3, UnionByRank 4 5]" 1 3]
  by (simp add: valid_size_def INT_MAX_def)

text \<open>
  C2. In every state reachable from construction with a valid size \<open>n\<close> by
  calls in range, following parent pointers from any \<open>i\<close> in \<open>[0, n]\<close> ends at
  exactly one self-parented root, the parent edges other than the self-loops
  form no cycle, and the sets of the roots are a partition of \<open>[0, n]\<close>. The
  sequence of calls is arbitrary, so every operation preserves this.
\<close>

theorem partition_invariant:
  assumes "valid_size n" and "list_all (call_ok n) cs"
  shows "\<exists>s0 s. DisjoinSet n = Returns s0 \<and> run s0 cs = Some (Returns s) \<and>
           (\<forall>i \<in> {0..n}. \<exists>!r. root_of (parent s) i r) \<and>
           acyclic (parent_edges (parent s)) \<and>
           partition_on {0..n} (root_sets (parent s))"
proof -
  from assms(2) have "\<forall>c \<in> set cs. call_ok n c" by (simp add: list_all_iff)
  from reachable [OF assms(1) this] obtain s0 s where
    s: "DisjoinSet n = Returns s0" "run s0 cs = Some (Returns s)" "ds_inv s"
    and len: "int (length (parent s)) = n + 1"
    by blast
  have "\<forall>i \<in> {0..n}. \<exists>!r. root_of (parent s) i r"
    using unique_root [OF s(3)] by (simp add: in_bounds_length [OF len])
  moreover have "acyclic (parent_edges (parent s))"
    using s(3) by (rule parent_edges_acyclic)
  moreover have "partition_on {0..n} (root_sets (parent s))"
    using root_sets_partition [OF s(3)] by (simp add: bounds_interval [OF len])
  ultimately show ?thesis using s by blast
qed

theorem partition_invariant_witness:
  "\<exists>s0 s. DisjoinSet 3 = Returns s0 \<and>
     run s0 [UnionBySize 0 1, FindUp 0, UnionByRank 1 2, IsComponent 0 2, UnionByRank 2 0]
       = Some (Returns s) \<and>
     (\<forall>i \<in> {0..3}. \<exists>!r. root_of (parent s) i r) \<and>
     acyclic (parent_edges (parent s)) \<and>
     partition_on {0..3} (root_sets (parent s))"
  using partition_invariant
    [of 3 "[UnionBySize 0 1, FindUp 0, UnionByRank 1 2, IsComponent 0 2, UnionByRank 2 0]"]
  by (simp add: valid_size_def INT_MAX_def)

text \<open>
  C3, on the code. \<open>n = 1\<close>, and \<open>unionByRank(0, 1)\<close> twice: the second call
  finds \<open>u_up = v_up = 1\<close>, the ranks are equal, and the last branch runs
  \<^verbatim>\<open>parent[1] = 1; rank[1]++\<close>: the rank of the root goes from 1 to 2. With
  \<open>unionBySize(0, 1)\<close> twice, \<open>1 < 1\<close> is false and the else branch runs
  \<^verbatim>\<open>parent[1] = 1; size[1] += size[1]\<close>: the size of the root goes from 2 to 4.
  Neither call throws; neither leaves the state as it was.
\<close>

theorem repeated_union_changes_state:
  "DisjoinSet 1 = Returns \<lparr>rank = [0, 0], parent = [0, 1], size_vec = [1, 1]\<rparr> \<and>
   unionByRank \<lparr>rank = [0, 0], parent = [0, 1], size_vec = [1, 1]\<rparr> 0 1
     = Some (Returns \<lparr>rank = [0, 1], parent = [1, 1], size_vec = [1, 1]\<rparr>) \<and>
   unionByRank \<lparr>rank = [0, 1], parent = [1, 1], size_vec = [1, 1]\<rparr> 0 1
     = Some (Returns \<lparr>rank = [0, 2], parent = [1, 1], size_vec = [1, 1]\<rparr>) \<and>
   unionBySize \<lparr>rank = [0, 0], parent = [0, 1], size_vec = [1, 1]\<rparr> 0 1
     = Some (Returns \<lparr>rank = [0, 0], parent = [1, 1], size_vec = [1, 2]\<rparr>) \<and>
   unionBySize \<lparr>rank = [0, 0], parent = [1, 1], size_vec = [1, 2]\<rparr> 0 1
     = Some (Returns \<lparr>rank = [0, 0], parent = [1, 1], size_vec = [1, 4]\<rparr>)"
proof (intro conjI)
  show "DisjoinSet 1 = Returns \<lparr>rank = [0, 0], parent = [0, 1], size_vec = [1, 1]\<rparr>"
    by code_simp
  show "unionByRank \<lparr>rank = [0, 0], parent = [0, 1], size_vec = [1, 1]\<rparr> 0 1
     = Some (Returns \<lparr>rank = [0, 1], parent = [1, 1], size_vec = [1, 1]\<rparr>)"
    by code_simp
  show "unionByRank \<lparr>rank = [0, 1], parent = [1, 1], size_vec = [1, 1]\<rparr> 0 1
     = Some (Returns \<lparr>rank = [0, 2], parent = [1, 1], size_vec = [1, 1]\<rparr>)"
    by code_simp
  show "unionBySize \<lparr>rank = [0, 0], parent = [0, 1], size_vec = [1, 1]\<rparr> 0 1
     = Some (Returns \<lparr>rank = [0, 0], parent = [1, 1], size_vec = [1, 2]\<rparr>)"
    by code_simp
  show "unionBySize \<lparr>rank = [0, 0], parent = [1, 1], size_vec = [1, 2]\<rparr> 0 1
     = Some (Returns \<lparr>rank = [0, 0], parent = [1, 1], size_vec = [1, 4]\<rparr>)"
    by code_simp
qed

text \<open>
  C4, on the code. \<open>n = 2\<close>, and \<open>unionBySize\<close> of \<open>(0, 1)\<close>, \<open>(1, 2)\<close> and \<open>(0, 2)\<close>.
  After the first two calls the three elements are one set with root 2 and
  \<open>size[2] = 3\<close>. The third call unites two elements of that set: it doubles
  \<open>size[2]\<close> to 6, while \<open>findUp\<close> still returns 2 for exactly the three
  elements 0, 1 and 2.
\<close>

theorem unionBySize_overcounts:
  "DisjoinSet 2 = Returns \<lparr>rank = [0, 0, 0], parent = [0, 1, 2], size_vec = [1, 1, 1]\<rparr> \<and>
   run \<lparr>rank = [0, 0, 0], parent = [0, 1, 2], size_vec = [1, 1, 1]\<rparr>
       [UnionBySize 0 1, UnionBySize 1 2]
     = Some (Returns \<lparr>rank = [0, 0, 0], parent = [1, 2, 2], size_vec = [1, 2, 3]\<rparr>) \<and>
   run \<lparr>rank = [0, 0, 0], parent = [0, 1, 2], size_vec = [1, 1, 1]\<rparr>
       [UnionBySize 0 1, UnionBySize 1 2, UnionBySize 0 2]
     = Some (Returns \<lparr>rank = [0, 0, 0], parent = [2, 2, 2], size_vec = [1, 2, 6]\<rparr>) \<and>
   map (\<lambda>x. findUp \<lparr>rank = [0, 0, 0], parent = [2, 2, 2], size_vec = [1, 2, 6]\<rparr> x) [0, 1, 2]
     = replicate 3 (Some (Returns
         (\<lparr>rank = [0, 0, 0], parent = [2, 2, 2], size_vec = [1, 2, 6]\<rparr>, 2)))"
proof (intro conjI)
  show "DisjoinSet 2 = Returns \<lparr>rank = [0, 0, 0], parent = [0, 1, 2], size_vec = [1, 1, 1]\<rparr>"
    by code_simp
  show "run \<lparr>rank = [0, 0, 0], parent = [0, 1, 2], size_vec = [1, 1, 1]\<rparr>
       [UnionBySize 0 1, UnionBySize 1 2]
     = Some (Returns \<lparr>rank = [0, 0, 0], parent = [1, 2, 2], size_vec = [1, 2, 3]\<rparr>)"
    by code_simp
  show "run \<lparr>rank = [0, 0, 0], parent = [0, 1, 2], size_vec = [1, 1, 1]\<rparr>
       [UnionBySize 0 1, UnionBySize 1 2, UnionBySize 0 2]
     = Some (Returns \<lparr>rank = [0, 0, 0], parent = [2, 2, 2], size_vec = [1, 2, 6]\<rparr>)"
    by code_simp
  show "map (\<lambda>x. findUp \<lparr>rank = [0, 0, 0], parent = [2, 2, 2], size_vec = [1, 2, 6]\<rparr> x) [0, 1, 2]
     = replicate 3 (Some (Returns
         (\<lparr>rank = [0, 0, 0], parent = [2, 2, 2], size_vec = [1, 2, 6]\<rparr>, 2)))"
    by code_simp
qed

text \<open>
  C5. In every reachable state and for every \<open>x\<close> in range, \<open>findUp x\<close> returns
  the root \<open>r\<close> of \<open>x\<close>; a second call returns \<open>r\<close> again and changes nothing more;
  after the first call every node of the path from \<open>x\<close>, \<open>x\<close> included, has
  \<open>r\<close> as its parent; and which elements share a set is as before the call.
\<close>

theorem findUp_compresses:
  assumes "valid_size n" and "list_all (call_ok n) cs" and "0 \<le> x \<and> x \<le> n"
  shows "\<exists>s0 s s' r. DisjoinSet n = Returns s0 \<and> run s0 cs = Some (Returns s) \<and>
           findUp s x = Some (Returns (s', r)) \<and> root_of (parent s) x r \<and>
           findUp s' x = Some (Returns (s', r)) \<and>
           (\<forall>y. on_path (parent s) x y \<longrightarrow> parent s' ! nat y = r) \<and>
           (\<forall>a b. same_set (parent s') a b \<longleftrightarrow> same_set (parent s) a b)"
proof -
  from assms(2) have "\<forall>c \<in> set cs. call_ok n c" by (simp add: list_all_iff)
  from reachable [OF assms(1) this] obtain s0 s where
    s: "DisjoinSet n = Returns s0" "run s0 cs = Some (Returns s)" "ds_inv s"
    and len: "int (length (parent s)) = n + 1"
    by blast
  have xb: "in_bounds (parent s) x" using assms(3) by (simp add: in_bounds_length [OF len])
  with s(3) obtain r where r: "root_of (parent s) x r" unfolding ds_inv_def by blast
  from findUp_spec [OF r] obtain p' where
    roots: "\<And>j r'. root_of p' j r' \<longleftrightarrow> root_of (parent s) j r'"
    and path: "\<forall>y. on_path (parent s) x y \<longrightarrow> p' ! nat y = r"
    and run: "findUp s x = Some (Returns (s\<lparr>parent := p'\<rparr>, r))"
    by blast
  let ?s' = "s\<lparr>parent := p'\<rparr>"
  have "p' ! nat x = r" using path xb by (simp add: on_path.here)
  then have "findUp ?s' x = Some (Returns (?s', r))"
    using r by (intro findUp_again) (simp_all add: roots)
  moreover have "\<forall>a b. same_set (parent ?s') a b \<longleftrightarrow> same_set (parent s) a b"
    by (simp add: same_set_cong [OF roots])
  ultimately show ?thesis using s r run path by auto
qed

theorem findUp_compresses_witness:
  "\<exists>s0 s s' r. DisjoinSet 3 = Returns s0 \<and>
     run s0 [UnionBySize 0 1, UnionBySize 1 2, UnionBySize 2 3] = Some (Returns s) \<and>
     findUp s 0 = Some (Returns (s', r)) \<and> root_of (parent s) 0 r \<and>
     findUp s' 0 = Some (Returns (s', r)) \<and>
     (\<forall>y. on_path (parent s) 0 y \<longrightarrow> parent s' ! nat y = r) \<and>
     (\<forall>a b. same_set (parent s') a b \<longleftrightarrow> same_set (parent s) a b)"
  using findUp_compresses [of 3 "[UnionBySize 0 1, UnionBySize 1 2, UnionBySize 2 3]" 0]
  by (simp add: valid_size_def INT_MAX_def)

text \<open>
  C6, as the code has it. No operation checks an element identifier. In every
  reachable state, an identifier \<open>x\<close> outside \<open>[0, n]\<close> makes \<open>findUp\<close>, and
  both unions and \<open>isComponent\<close> with \<open>x\<close> as either argument, index the parent
  vector out of bounds: the behaviour is undefined, and no exception (none
  that says OutOfRange, nor any other) is thrown.
\<close>

theorem out_of_range_is_unchecked:
  assumes "valid_size n" and "list_all (call_ok n) cs" and "x < 0 \<or> n < x"
  shows "\<exists>s0 s. DisjoinSet n = Returns s0 \<and> run s0 cs = Some (Returns s) \<and>
           findUp s x = Some Undefined \<and>
           (\<forall>y. unionByRank s x y = Some Undefined \<and> unionByRank s y x = Some Undefined \<and>
                unionBySize s x y = Some Undefined \<and> unionBySize s y x = Some Undefined \<and>
                isComponent s x y = Some Undefined \<and> isComponent s y x = Some Undefined)"
proof -
  from assms(2) have "\<forall>c \<in> set cs. call_ok n c" by (simp add: list_all_iff)
  from reachable [OF assms(1) this] obtain s0 s where
    s: "DisjoinSet n = Returns s0" "run s0 cs = Some (Returns s)" "ds_inv s"
    and len: "int (length (parent s)) = n + 1"
    by blast
  have x: "\<not> in_bounds (parent s) x"
    using assms(3) by (auto simp: in_bounds_length [OF len])
  then have f: "findUp s x = Some Undefined" by (rule findUp_out_of_bounds)
  have "unionByRank s x y = Some Undefined \<and> unionByRank s y x = Some Undefined \<and>
        unionBySize s x y = Some Undefined \<and> unionBySize s y x = Some Undefined \<and>
        isComponent s x y = Some Undefined \<and> isComponent s y x = Some Undefined" for y
    using second_find_out_of_bounds [OF s(3) x, of y] f
    by (auto simp: unionByRank_def unionBySize_def isComponent_def)
  with s f show ?thesis by blast
qed

theorem out_of_range_is_unchecked_witness:
  "\<exists>s0 s. DisjoinSet 3 = Returns s0 \<and> run s0 [UnionByRank 0 1] = Some (Returns s) \<and>
     findUp s (- 1) = Some Undefined \<and>
     (\<forall>y. unionByRank s (- 1) y = Some Undefined \<and> unionByRank s y (- 1) = Some Undefined \<and>
          unionBySize s (- 1) y = Some Undefined \<and> unionBySize s y (- 1) = Some Undefined \<and>
          isComponent s (- 1) y = Some Undefined \<and> isComponent s y (- 1) = Some Undefined)"
  using out_of_range_is_unchecked [of 3 "[UnionByRank 0 1]" "- 1"]
  by (simp add: valid_size_def INT_MAX_def)

text \<open>
  C6 as stated fails on its own example: \<open>findUp(n + 1)\<close> on the object built
  with \<open>n = 3\<close> reads \<open>parent[4]\<close> of a vector of four elements, and nothing
  is thrown.
\<close>

theorem findUp_past_the_end:
  "\<exists>s. DisjoinSet 3 = Returns s \<and> findUp s 4 = Some Undefined \<and>
       (\<nexists>e. findUp s 4 = Some (Throws e))"
proof -
  have "DisjoinSet 3 = Returns \<lparr>rank = [0, 0, 0, 0], parent = [0, 1, 2, 3],
      size_vec = [1, 1, 1, 1]\<rparr>"
    by code_simp
  moreover have "findUp \<lparr>rank = [0, 0, 0, 0], parent = [0, 1, 2, 3],
      size_vec = [1, 1, 1, 1]\<rparr> 4 = Some Undefined"
    by code_simp
  ultimately show ?thesis by simp
qed

text \<open>
  C7. In a reachable state, let \<open>unionBySize(u, v)\<close> be called with \<open>u\<close>, \<open>v\<close> in
  range, let its two finds return the roots \<open>ur\<close> and \<open>vr\<close> and leave the object
  \<open>s2\<close>, and let \<open>ur \<noteq> vr\<close>. Then the call returns \<open>s2\<close> with the root of the
  smaller index attached under the root of the larger index, whatever the
  sizes are, and with the size of the absorbed root added (in 32-bit
  arithmetic) to the size of the surviving root. The rank vector is as before
  the call, and the call does the same on any other rank vector.
\<close>

theorem unionBySize_by_index:
  assumes "valid_size n" and "list_all (call_ok n) cs"
    and "DisjoinSet n = Returns s0" and "run s0 cs = Some (Returns s)"
    and "0 \<le> u \<and> u \<le> n" and "0 \<le> v \<and> v \<le> n"
    and "findUp s u = Some (Returns (s1, ur))" and "findUp s1 v = Some (Returns (s2, vr))"
    and "ur \<noteq> vr"
  shows "let lo = min ur vr; hi = max ur vr;
             s' = s2\<lparr>parent := (parent s2)[nat lo := hi],
                     size_vec := (size_vec s2)[nat hi :=
                        int32 (size_vec s2 ! nat hi + size_vec s2 ! nat lo)]\<rparr>
         in unionBySize s u v = Some (Returns s') \<and> rank s' = rank s \<and>
            (\<forall>rk. unionBySize (s\<lparr>rank := rk\<rparr>) u v = Some (Returns (s'\<lparr>rank := rk\<rparr>)))"
proof -
  from assms(2) have "\<forall>c \<in> set cs. call_ok n c" by (simp add: list_all_iff)
  from reachable [OF assms(1) this] assms(3,4) have inv: "ds_inv s"
    and len: "int (length (parent s)) = n + 1"
    by auto
  have b: "in_bounds (parent s) u" "in_bounds (parent s) v"
    using assms(5,6) by (simp_all add: in_bounds_length [OF len])
  with inv obtain a c where ac: "root_of (parent s) u a" "root_of (parent s) v c"
    unfolding ds_inv_def by blast
  from two_finds [OF ac] obtain p1 p2 where p2: "length p2 = length (parent s)"
    "root_of p2 a a" "root_of p2 c c"
    and f: "\<And>t. parent t = parent s \<Longrightarrow>
              findUp t u = Some (Returns (t\<lparr>parent := p1\<rparr>, a)) \<and>
              findUp (t\<lparr>parent := p1\<rparr>) v = Some (Returns (t\<lparr>parent := p2\<rparr>, c))"
    by blast
  from f [of s] assms(7) have s1: "s1 = s\<lparr>parent := p1\<rparr>" and ur: "ur = a" by simp_all
  from f [of s] assms(8) have s2: "s2 = s\<lparr>parent := p2\<rparr>" and vr: "vr = c"
    unfolding s1 by simp_all
  have pb: "in_bounds (parent s2) ur" "in_bounds (parent s2) vr"
    using p2(2,3) root_of_in_bounds unfolding s2 ur vr by auto
  then have sb: "in_bounds (size_vec s2) ur" "in_bounds (size_vec s2) vr"
    using inv p2(1) unfolding s2 by (simp_all add: ds_inv_def in_bounds_def)
  let ?lo = "min ur vr" and ?hi = "max ur vr"
  let ?s' = "s2\<lparr>parent := (parent s2)[nat ?lo := ?hi],
                 size_vec := (size_vec s2)[nat ?hi :=
                    int32 (size_vec s2 ! nat ?hi + size_vec s2 ! nat ?lo)]\<rparr>"
  have step: "size_step s2 ur vr = Returns ?s'"
    using pb sb assms(9) by (simp add: size_step_def min_def max_def)
  have 1: "unionBySize s u v = Some (Returns ?s')"
    using assms(7,8) step by (simp add: unionBySize_def)
  have 2: "rank ?s' = rank s" unfolding s2 by simp
  have 3: "unionBySize (s\<lparr>rank := rk\<rparr>) u v = Some (Returns (?s'\<lparr>rank := rk\<rparr>))" for rk
  proof -
    have eq: "(s\<lparr>rank := rk\<rparr>)\<lparr>parent := p2\<rparr> = s2\<lparr>rank := rk\<rparr>"
      unfolding s2 by simp
    have "parent (s\<lparr>rank := rk\<rparr>) = parent s" by simp
    from f [OF this] have "unionBySize (s\<lparr>rank := rk\<rparr>) u v
        = Some (size_step ((s\<lparr>rank := rk\<rparr>)\<lparr>parent := p2\<rparr>) a c)"
      by (simp add: unionBySize_def)
    then show ?thesis unfolding eq size_step_rank ur [symmetric] vr [symmetric] step by simp
  qed
  from 1 2 3 show ?thesis unfolding Let_def by blast
qed


theorem unionBySize_by_index_witness:
  "unionBySize \<lparr>rank = [0, 0, 0, 0], parent = [1, 1, 2, 3], size_vec = [1, 2, 1, 1]\<rparr> 0 2
     = Some (Returns \<lparr>rank = [0, 0, 0, 0], parent = [1, 2, 2, 3], size_vec = [1, 2, 3, 1]\<rparr>)"
proof -
  let ?init = "\<lparr>rank = [0, 0, 0, 0], parent = [0, 1, 2, 3], size_vec = [1, 1, 1, 1]\<rparr>"
  let ?s = "\<lparr>rank = [0, 0, 0, 0], parent = [1, 1, 2, 3], size_vec = [1, 2, 1, 1]\<rparr>"
  have 1: "valid_size 3" by (simp add: valid_size_def INT_MAX_def)
  have 2: "list_all (call_ok 3) [UnionBySize 0 1]" by simp
  have 3: "DisjoinSet 3 = Returns ?init" by code_simp
  have 4: "run ?init [UnionBySize 0 1] = Some (Returns ?s)" by code_simp
  have 5: "(0::int) \<le> 0 \<and> (0::int) \<le> 3" and 6: "(0::int) \<le> 2 \<and> (2::int) \<le> 3" by simp_all
  have 7: "findUp ?s 0 = Some (Returns (?s, 1))" by code_simp
  have 8: "findUp ?s 2 = Some (Returns (?s, 2))" by code_simp
  have 9: "(1::int) \<noteq> 2" by simp
  from unionBySize_by_index [OF 1 2 3 4 5 6 7 8 9] show ?thesis
    by (simp add: Let_def int32_def)
qed

text \<open>
  C8, as the code has it. The constructor checks nothing itself. For
  \<open>0 \<le> n < INT_MAX\<close> it returns the object with \<open>n + 1\<close> elements,
  \<open>parent[i] = i\<close>, \<open>rank[i] = 0\<close> and \<open>size[i] = 1\<close> for every \<open>i\<close> in \<open>[0, n]\<close>.
  For \<open>n = -1\<close> it returns too, with three empty vectors. For an \<^verbatim>\<open>int\<close> below
  \<open>-1\<close> the first \<^verbatim>\<open>resize\<close> throws \<^verbatim>\<open>std::length_error\<close>.
\<close>

theorem DisjoinSet_construction:
  "(valid_size n \<longrightarrow>
      (\<exists>s. DisjoinSet n = Returns s \<and>
         length (rank s) = nat (n + 1) \<and> length (parent s) = nat (n + 1) \<and>
         length (size_vec s) = nat (n + 1) \<and>
         (\<forall>i \<in> {0..n}. parent s ! nat i = i \<and> rank s ! nat i = 0 \<and> size_vec s ! nat i = 1))) \<and>
   DisjoinSet (- 1) = Returns \<lparr>rank = [], parent = [], size_vec = []\<rparr> \<and>
   (- 2147483648 \<le> n \<and> n < - 1 \<longrightarrow> DisjoinSet n = Throws LengthError)"
proof (intro conjI impI)
  assume "valid_size n"
  from DisjoinSet_valid [OF this] show "\<exists>s. DisjoinSet n = Returns s \<and>
         length (rank s) = nat (n + 1) \<and> length (parent s) = nat (n + 1) \<and>
         length (size_vec s) = nat (n + 1) \<and>
         (\<forall>i \<in> {0..n}. parent s ! nat i = i \<and> rank s ! nat i = 0 \<and> size_vec s ! nat i = 1)"
    by auto
next
  show "DisjoinSet (- 1) = Returns \<lparr>rank = [], parent = [], size_vec = []\<rparr>"
    by (simp add: DisjoinSet_def int32_def init_parent.simps)
next
  assume n: "- 2147483648 \<le> n \<and> n < - 1"
  then have "int32 (n + 1) = n + 1" by (intro int32_id) simp_all
  with n show "DisjoinSet n = Throws LengthError" by (simp add: DisjoinSet_def)
qed

theorem DisjoinSet_construction_witness:
  "(\<exists>s. DisjoinSet 2 = Returns s \<and>
      length (rank s) = 3 \<and> length (parent s) = 3 \<and> length (size_vec s) = 3 \<and>
      (\<forall>i \<in> {0..2}. parent s ! nat i = i \<and> rank s ! nat i = 0 \<and> size_vec s ! nat i = 1)) \<and>
   DisjoinSet (- 5) = Throws LengthError"
  using DisjoinSet_construction [of 2] DisjoinSet_construction [of "- 5"]
  by (simp add: valid_size_def INT_MAX_def)

text \<open>
  C8 as stated fails at \<open>n = -1\<close>: the size is negative, \<^verbatim>\<open>n+1\<close> is \<open>0\<close>, the
  three \<^verbatim>\<open>resize(0)\<close> succeed, the loop body never runs, and the constructor
  returns an empty structure.
\<close>

theorem DisjoinSet_minus_one:
  "DisjoinSet (- 1) = Returns \<lparr>rank = [], parent = [], size_vec = []\<rparr>"
  by (simp add: DisjoinSet_def int32_def init_parent.simps)

text \<open>
  C9. In every reachable state every operation returns for every input in
  range: none runs forever, none throws, none leaves the vectors.
\<close>

theorem operations_terminate:
  assumes "valid_size n" and "list_all (call_ok n) cs"
    and "0 \<le> x \<and> x \<le> n" and "0 \<le> u \<and> u \<le> n" and "0 \<le> v \<and> v \<le> n"
  shows "\<exists>s0 s. DisjoinSet n = Returns s0 \<and> run s0 cs = Some (Returns s) \<and>
           (\<exists>s' r. findUp s x = Some (Returns (s', r))) \<and>
           (\<exists>s'. unionByRank s u v = Some (Returns s')) \<and>
           (\<exists>s'. unionBySize s u v = Some (Returns s')) \<and>
           (\<exists>s' b. isComponent s u v = Some (Returns (s', b)))"
proof -
  from assms(2) have "\<forall>c \<in> set cs. call_ok n c" by (simp add: list_all_iff)
  from reachable [OF assms(1) this] obtain s0 s where
    s: "DisjoinSet n = Returns s0" "run s0 cs = Some (Returns s)" "ds_inv s"
    and len: "int (length (parent s)) = n + 1"
    by blast
  have b: "in_bounds (parent s) x" "in_bounds (parent s) u" "in_bounds (parent s) v"
    using assms(3-5) by (simp_all add: in_bounds_length [OF len])
  have "\<exists>s' r. findUp s x = Some (Returns (s', r))"
    using findUp_inv [OF s(3) b(1)] by blast
  moreover have "\<exists>s'. unionByRank s u v = Some (Returns s')"
    using unionByRank_inv [OF s(3) b(2,3)] by blast
  moreover have "\<exists>s'. unionBySize s u v = Some (Returns s')"
    using unionBySize_inv [OF s(3) b(2,3)] by blast
  moreover have "\<exists>s' b. isComponent s u v = Some (Returns (s', b))"
    using isComponent_inv [OF s(3) b(2,3)] by blast
  ultimately show ?thesis using s by blast
qed

theorem operations_terminate_witness:
  "\<exists>s0 s. DisjoinSet 4 = Returns s0 \<and>
     run s0 [UnionByRank 0 1, UnionByRank 2 3, UnionByRank 1 3, UnionBySize 4 0]
       = Some (Returns s) \<and>
     (\<exists>s' r. findUp s 0 = Some (Returns (s', r))) \<and>
     (\<exists>s'. unionByRank s 2 4 = Some (Returns s')) \<and>
     (\<exists>s'. unionBySize s 2 4 = Some (Returns s')) \<and>
     (\<exists>s' b. isComponent s 2 4 = Some (Returns (s', b)))"
  using operations_terminate
    [of 4 "[UnionByRank 0 1, UnionByRank 2 3, UnionByRank 1 3, UnionBySize 4 0]" 0 2 4]
  by (simp add: valid_size_def INT_MAX_def)

text \<open>
  C10. In every reachable state and for arguments in range: \<open>unionByRank\<close>
  leaves the size vector as it is and its result does not depend on it (put any
  vector \<open>sz\<close> in its place: the same result, with \<open>sz\<close> untouched);
  \<open>unionBySize\<close> does the same with the rank vector; \<open>findUp\<close> and \<open>isComponent\<close>
  change neither the rank nor the size vector.
\<close>

theorem bookkeeping_frame:
  assumes "valid_size n" and "list_all (call_ok n) cs"
    and "0 \<le> x \<and> x \<le> n" and "0 \<le> u \<and> u \<le> n" and "0 \<le> v \<and> v \<le> n"
  shows "\<exists>s0 s. DisjoinSet n = Returns s0 \<and> run s0 cs = Some (Returns s) \<and>
           (\<exists>s'. unionByRank s u v = Some (Returns s') \<and> size_vec s' = size_vec s \<and>
              (\<forall>sz. unionByRank (s\<lparr>size_vec := sz\<rparr>) u v = Some (Returns (s'\<lparr>size_vec := sz\<rparr>)))) \<and>
           (\<exists>s'. unionBySize s u v = Some (Returns s') \<and> rank s' = rank s \<and>
              (\<forall>rk. unionBySize (s\<lparr>rank := rk\<rparr>) u v = Some (Returns (s'\<lparr>rank := rk\<rparr>)))) \<and>
           (\<exists>s' r. findUp s x = Some (Returns (s', r)) \<and>
              rank s' = rank s \<and> size_vec s' = size_vec s) \<and>
           (\<exists>s' b. isComponent s u v = Some (Returns (s', b)) \<and>
              rank s' = rank s \<and> size_vec s' = size_vec s)"
proof -
  from assms(2) have "\<forall>c \<in> set cs. call_ok n c" by (simp add: list_all_iff)
  from reachable [OF assms(1) this] obtain s0 s where
    s: "DisjoinSet n = Returns s0" "run s0 cs = Some (Returns s)" "ds_inv s"
    and len: "int (length (parent s)) = n + 1"
    by blast
  have b: "in_bounds (parent s) x" "in_bounds (parent s) u" "in_bounds (parent s) v"
    using assms(3-5) by (simp_all add: in_bounds_length [OF len])
  from b s(3) obtain a c where ac: "root_of (parent s) u a" "root_of (parent s) v c"
    unfolding ds_inv_def by blast
  from unions_unfold [OF ac] obtain p2 where
    un: "\<And>t. parent t = parent s \<Longrightarrow>
              unionByRank t u v = Some (rank_step (t\<lparr>parent := p2\<rparr>) a c) \<and>
              unionBySize t u v = Some (size_step (t\<lparr>parent := p2\<rparr>) a c)"
    by blast
  have 1: "\<exists>s'. unionByRank s u v = Some (Returns s') \<and> size_vec s' = size_vec s \<and>
              (\<forall>sz. unionByRank (s\<lparr>size_vec := sz\<rparr>) u v = Some (Returns (s'\<lparr>size_vec := sz\<rparr>)))"
  proof -
    from unionByRank_inv [OF s(3) b(2,3)] obtain s' where
      s': "unionByRank s u v = Some (Returns s')" "size_vec s' = size_vec s" by blast
    with un [of s] have st: "rank_step (s\<lparr>parent := p2\<rparr>) a c = Returns s'" by simp
    have "unionByRank (s\<lparr>size_vec := sz\<rparr>) u v = Some (Returns (s'\<lparr>size_vec := sz\<rparr>))" for sz
    proof -
      have eq: "(s\<lparr>size_vec := sz\<rparr>)\<lparr>parent := p2\<rparr> = (s\<lparr>parent := p2\<rparr>)\<lparr>size_vec := sz\<rparr>"
        by simp
      have "parent (s\<lparr>size_vec := sz\<rparr>) = parent s" by simp
      from un [OF this] have "unionByRank (s\<lparr>size_vec := sz\<rparr>) u v
          = Some (rank_step ((s\<lparr>size_vec := sz\<rparr>)\<lparr>parent := p2\<rparr>) a c)"
        by (rule conjunct1)
      then show ?thesis unfolding eq rank_step_size_vec st by simp
    qed
    with s' show ?thesis by blast
  qed
  have 2: "\<exists>s'. unionBySize s u v = Some (Returns s') \<and> rank s' = rank s \<and>
              (\<forall>rk. unionBySize (s\<lparr>rank := rk\<rparr>) u v = Some (Returns (s'\<lparr>rank := rk\<rparr>)))"
  proof -
    from unionBySize_inv [OF s(3) b(2,3)] obtain s' where
      s': "unionBySize s u v = Some (Returns s')" "rank s' = rank s" by blast
    with un [of s] have st: "size_step (s\<lparr>parent := p2\<rparr>) a c = Returns s'" by simp
    have "unionBySize (s\<lparr>rank := rk\<rparr>) u v = Some (Returns (s'\<lparr>rank := rk\<rparr>))" for rk
    proof -
      have eq: "(s\<lparr>rank := rk\<rparr>)\<lparr>parent := p2\<rparr> = (s\<lparr>parent := p2\<rparr>)\<lparr>rank := rk\<rparr>"
        by simp
      have "parent (s\<lparr>rank := rk\<rparr>) = parent s" by simp
      from un [OF this] have "unionBySize (s\<lparr>rank := rk\<rparr>) u v
          = Some (size_step ((s\<lparr>rank := rk\<rparr>)\<lparr>parent := p2\<rparr>) a c)"
        by (rule conjunct2)
      then show ?thesis unfolding eq size_step_rank st by simp
    qed
    with s' show ?thesis by blast
  qed
  have 3: "\<exists>s' r. findUp s x = Some (Returns (s', r)) \<and>
              rank s' = rank s \<and> size_vec s' = size_vec s"
    using findUp_inv [OF s(3) b(1)] by blast
  have 4: "\<exists>s' b. isComponent s u v = Some (Returns (s', b)) \<and>
              rank s' = rank s \<and> size_vec s' = size_vec s"
    using isComponent_inv [OF s(3) b(2,3)] by blast
  from s 1 2 3 4 show ?thesis by blast
qed

theorem bookkeeping_frame_witness:
  "\<exists>s0 s. DisjoinSet 3 = Returns s0 \<and>
     run s0 [UnionByRank 0 1, UnionBySize 2 3] = Some (Returns s) \<and>
     (\<exists>s'. unionByRank s 1 3 = Some (Returns s') \<and> size_vec s' = size_vec s \<and>
        (\<forall>sz. unionByRank (s\<lparr>size_vec := sz\<rparr>) 1 3 = Some (Returns (s'\<lparr>size_vec := sz\<rparr>)))) \<and>
     (\<exists>s'. unionBySize s 1 3 = Some (Returns s') \<and> rank s' = rank s \<and>
        (\<forall>rk. unionBySize (s\<lparr>rank := rk\<rparr>) 1 3 = Some (Returns (s'\<lparr>rank := rk\<rparr>)))) \<and>
     (\<exists>s' r. findUp s 0 = Some (Returns (s', r)) \<and>
        rank s' = rank s \<and> size_vec s' = size_vec s) \<and>
     (\<exists>s' b. isComponent s 1 3 = Some (Returns (s', b)) \<and>
        rank s' = rank s \<and> size_vec s' = size_vec s)"
  using bookkeeping_frame [of 3 "[UnionByRank 0 1, UnionBySize 2 3]" 0 1 3]
  by (simp add: valid_size_def INT_MAX_def)

end
